theory Spec2Isabelle
  imports Main
begin

section \<open>Bytes, protocol constants and errors\<close>

text \<open>
  Go's \<^verbatim>\<open>byte\<close> is an unsigned 8-bit value and \<^verbatim>\<open>[]byte\<close> a sequence of them; they are
  modelled as \<^typ>\<open>char\<close> (256 values) and \<^typ>\<open>char list\<close>. Only equality and, for the
  character classes of the patterns, the numeric order of bytes are used by the program.
\<close>

type_synonym byte = char
type_synonym bytes = "char list"

abbreviation IAC :: byte where "IAC \<equiv> CHR 0xFF"
abbreviation SB :: byte where "SB \<equiv> CHR 0xFA"
abbreviation SE :: byte where "SE \<equiv> CHR 0xF0"
abbreviation WILL :: byte where "WILL \<equiv> CHR 0xFB"
abbreviation WONT :: byte where "WONT \<equiv> CHR 0xFC"
abbreviation DO :: byte where "DO \<equiv> CHR 0xFD"
abbreviation DONT :: byte where "DONT \<equiv> CHR 0xFE"

abbreviation NUL :: byte where "NUL \<equiv> CHR 0x00"
abbreviation LF :: byte where "LF \<equiv> CHR 0x0A"
abbreviation CR :: byte where "CR \<equiv> CHR 0x0D"

abbreviation defaultDelimiter :: byte where "defaultDelimiter \<equiv> CHR '' ''"

text \<open>
  A Go function returning \<^verbatim>\<open>(value, error)\<close> returns both components, also when the error is
  not nil, so results are tuples with an \<^typ>\<open>'e option\<close> component (\<open>None\<close> is \<^verbatim>\<open>nil\<close>).
  \<open>ReadError\<close> is the error of the connection's read side (deadline exceeded or end of
  stream), \<open>WriteError\<close> the one of its write side; \<open>SliceBounds\<close> is the run-time panic of
  a slice expression out of range.
\<close>

datatype error = ReadError | WriteError | SliceBounds

section \<open>The buffered reader over the connection\<close>

text \<open>
  \<^verbatim>\<open>tc.reader\<close> is a \<^verbatim>\<open>bufio.Reader\<close> over the connection. Its state is the bytes it holds
  that are not read yet (\<open>buf\<close>) and what the connection will still deliver (\<open>src\<close>): one
  list element per successful read of the connection, in order. The read deadline is set
  once, so the connection delivers finitely many bytes; when \<open>src\<close> is exhausted, a read of
  the connection fails with \<open>ReadError\<close>, every time it is tried. A read that returns no
  byte and no error is an empty element; the reader then reads again. The calls below are the
  ones the program makes; \<^verbatim>\<open>Peek\<close> and \<^verbatim>\<open>Discard\<close> are only called with counts far below the
  buffer's size (4096), so the buffer never fills up.
\<close>

record Reader =
  buf :: bytes
  src :: "bytes list"

definition flat :: "Reader \<Rightarrow> bytes" where
  "flat r = buf r @ concat (src r)"

definition rdBuffered :: "Reader \<Rightarrow> nat" where
  "rdBuffered r = length (buf r)"

function rdReadByte :: "Reader \<Rightarrow> byte \<times> error option \<times> Reader" where
  "rdReadByte r =
     (case buf r of
        b # bs \<Rightarrow> (b, None, r\<lparr>buf := bs\<rparr>)
      | [] \<Rightarrow>
         (case src r of
            [] \<Rightarrow> (NUL, Some ReadError, r)
          | c # cs \<Rightarrow> rdReadByte (r\<lparr>buf := c, src := cs\<rparr>)))"
  by pat_completeness auto
termination
  by (relation "measure (\<lambda>r. length (src r))") auto

function rdPeek :: "nat \<Rightarrow> Reader \<Rightarrow> bytes \<times> error option \<times> Reader" where
  "rdPeek n r =
     (if n \<le> length (buf r) then (take n (buf r), None, r)
      else
        (case src r of
           [] \<Rightarrow> (buf r, Some ReadError, r)
         | c # cs \<Rightarrow> rdPeek n (r\<lparr>buf := buf r @ c, src := cs\<rparr>)))"
  by pat_completeness auto
termination
  by (relation "measure (\<lambda>(n, r). length (src r))") auto

function rdDiscard :: "nat \<Rightarrow> Reader \<Rightarrow> nat \<times> error option \<times> Reader" where
  "rdDiscard n r =
     (if n \<le> length (buf r) then (n, None, r\<lparr>buf := drop n (buf r)\<rparr>)
      else
        (case src r of
           [] \<Rightarrow> (length (buf r), Some ReadError, r\<lparr>buf := []\<rparr>)
         | c # cs \<Rightarrow>
            (case rdDiscard (n - length (buf r)) (r\<lparr>buf := c, src := cs\<rparr>) of
               (k, e, r') \<Rightarrow> (length (buf r) + k, e, r'))))"
  by pat_completeness auto
termination
  by (relation "measure (\<lambda>(n, r). length (src r))") auto

declare rdReadByte.simps [simp del] rdPeek.simps [simp del] rdDiscard.simps [simp del]

text \<open>
  What each call does, in terms of the bytes still to be read (\<open>flat\<close>); how the connection
  cuts its stream into reads does not change what a call returns.
\<close>

lemma rdReadByte_Nil:
  "flat r = [] \<Longrightarrow> \<exists>r'. rdReadByte r = (NUL, Some ReadError, r') \<and> flat r' = []"
proof (induction r rule: rdReadByte.induct)
  case (1 r)
  show ?case
  proof (cases "src r")
    case Nil
    with "1.prems" show ?thesis
      by (simp add: rdReadByte.simps [of r] flat_def)
  next
    case (Cons c cs)
    with "1.prems" have b: "buf r = []" and f: "flat (r\<lparr>buf := c, src := cs\<rparr>) = []"
      by (simp_all add: flat_def)
    from "1.IH" [OF b Cons f] b Cons show ?thesis
      by (simp add: rdReadByte.simps [of r])
  qed
qed

lemma rdReadByte_Cons:
  "flat r = x # s \<Longrightarrow> \<exists>r'. rdReadByte r = (x, None, r') \<and> flat r' = s"
proof (induction r rule: rdReadByte.induct)
  case (1 r)
  show ?case
  proof (cases "buf r")
    case (Cons b bs)
    with "1.prems" show ?thesis
      by (simp add: rdReadByte.simps [of r] flat_def)
  next
    case Nil
    show ?thesis
    proof (cases "src r")
      case Nil
      with \<open>buf r = []\<close> "1.prems" show ?thesis by (simp add: flat_def)
    next
      case (Cons c cs)
      with \<open>buf r = []\<close> "1.prems" have f: "flat (r\<lparr>buf := c, src := cs\<rparr>) = x # s"
        by (simp add: flat_def)
      from "1.IH" [OF \<open>buf r = []\<close> Cons f] \<open>buf r = []\<close> Cons show ?thesis
        by (simp add: rdReadByte.simps [of r])
    qed
  qed
qed

lemma rdPeek_enough:
  "n \<le> length (flat r) \<Longrightarrow> \<exists>r'. rdPeek n r = (take n (flat r), None, r') \<and> flat r' = flat r"
proof (induction n r rule: rdPeek.induct)
  case (1 n r)
  show ?case
  proof (cases "n \<le> length (buf r)")
    case True
    then show ?thesis by (simp add: rdPeek.simps [of n r] flat_def)
  next
    case False
    show ?thesis
    proof (cases "src r")
      case Nil
      with False "1.prems" show ?thesis by (simp add: flat_def)
    next
      case (Cons c cs)
      have f: "flat (r\<lparr>buf := buf r @ c, src := cs\<rparr>) = flat r"
        using Cons by (simp add: flat_def)
      from "1.IH" [OF False Cons] "1.prems" f False Cons show ?thesis
        by (simp add: rdPeek.simps [of n r])
    qed
  qed
qed

lemma rdPeek_short:
  "length (flat r) < n \<Longrightarrow> \<exists>r'. rdPeek n r = (flat r, Some ReadError, r') \<and> flat r' = flat r"
proof (induction n r rule: rdPeek.induct)
  case (1 n r)
  from "1.prems" have False: "\<not> n \<le> length (buf r)" by (simp add: flat_def)
  show ?case
  proof (cases "src r")
    case Nil
    with False show ?thesis by (simp add: rdPeek.simps [of n r] flat_def)
  next
    case (Cons c cs)
    have f: "flat (r\<lparr>buf := buf r @ c, src := cs\<rparr>) = flat r"
      using Cons by (simp add: flat_def)
    from "1.IH" [OF False Cons] "1.prems" f False Cons show ?thesis
      by (simp add: rdPeek.simps [of n r])
  qed
qed

lemma rdDiscard_enough:
  "n \<le> length (flat r) \<Longrightarrow> \<exists>r'. rdDiscard n r = (n, None, r') \<and> flat r' = drop n (flat r)"
proof (induction n r rule: rdDiscard.induct)
  case (1 n r)
  show ?case
  proof (cases "n \<le> length (buf r)")
    case True
    then show ?thesis by (simp add: rdDiscard.simps [of n r] flat_def)
  next
    case False
    show ?thesis
    proof (cases "src r")
      case Nil
      with False "1.prems" show ?thesis by (simp add: flat_def)
    next
      case (Cons c cs)
      have f: "flat (r\<lparr>buf := c, src := cs\<rparr>) = drop (length (buf r)) (flat r)"
        using Cons by (simp add: flat_def)
      have "n - length (buf r) \<le> length (flat (r\<lparr>buf := c, src := cs\<rparr>))"
        using "1.prems" f by simp
      from "1.IH" [OF False Cons this] obtain r' where
        "rdDiscard (n - length (buf r)) (r\<lparr>buf := c, src := cs\<rparr>) = (n - length (buf r), None, r')"
        "flat r' = drop (n - length (buf r)) (flat (r\<lparr>buf := c, src := cs\<rparr>))"
        by blast
      with False Cons f show ?thesis
        by (simp add: rdDiscard.simps [of n r])
    qed
  qed
qed

lemma rdDiscard_short:
  "length (flat r) < n \<Longrightarrow>
   \<exists>r'. rdDiscard n r = (length (flat r), Some ReadError, r') \<and> flat r' = []"
proof (induction n r rule: rdDiscard.induct)
  case (1 n r)
  from "1.prems" have False: "\<not> n \<le> length (buf r)" by (simp add: flat_def)
  show ?case
  proof (cases "src r")
    case Nil
    with False show ?thesis by (simp add: rdDiscard.simps [of n r] flat_def)
  next
    case (Cons c cs)
    have f: "flat (r\<lparr>buf := c, src := cs\<rparr>) = drop (length (buf r)) (flat r)"
      using Cons by (simp add: flat_def)
    have "length (flat (r\<lparr>buf := c, src := cs\<rparr>)) < n - length (buf r)"
      using "1.prems" f by (simp add: flat_def)
    from "1.IH" [OF False Cons this] obtain r' where
      "rdDiscard (n - length (buf r)) (r\<lparr>buf := c, src := cs\<rparr>) =
         (length (flat (r\<lparr>buf := c, src := cs\<rparr>)), Some ReadError, r')"
      "flat r' = []"
      by blast
    with False Cons f show ?thesis
      by (simp add: rdDiscard.simps [of n r] flat_def)
  qed
qed

lemma rdReadByte_ok:
  assumes "rdReadByte r = (b, None, r')"
  shows "flat r = b # flat r'"
proof (cases "flat r")
  case Nil
  from rdReadByte_Nil [OF Nil] assms show ?thesis by auto
next
  case (Cons x s)
  from rdReadByte_Cons [OF Cons] assms show ?thesis using Cons by auto
qed

lemma rdReadByte_err:
  assumes "rdReadByte r = (b, Some e, r')"
  shows "flat r = [] \<and> flat r' = [] \<and> b = NUL \<and> e = ReadError"
proof (cases "flat r")
  case Nil
  from rdReadByte_Nil [OF Nil] assms show ?thesis using Nil by auto
next
  case (Cons x s)
  from rdReadByte_Cons [OF Cons] assms show ?thesis by auto
qed

lemma rdPeek_flat:
  assumes "rdPeek n r = (p, e, r')"
  shows "flat r' = flat r"
proof (cases "n \<le> length (flat r)")
  case True
  from rdPeek_enough [OF True] assms show ?thesis by auto
next
  case False
  then have "length (flat r) < n" by simp
  from rdPeek_short [OF this] assms show ?thesis by auto
qed

lemma rdPeek_ok:
  assumes "rdPeek n r = (p, None, r')"
  shows "n \<le> length (flat r) \<and> p = take n (flat r) \<and> flat r' = flat r"
proof (cases "n \<le> length (flat r)")
  case True
  from rdPeek_enough [OF True] assms show ?thesis using True by auto
next
  case False
  then have "length (flat r) < n" by simp
  from rdPeek_short [OF this] assms show ?thesis by auto
qed

lemma rdPeek_err:
  assumes "rdPeek n r = (p, Some e, r')"
  shows "length (flat r) < n \<and> p = flat r \<and> flat r' = flat r \<and> e = ReadError"
proof (cases "n \<le> length (flat r)")
  case True
  from rdPeek_enough [OF True] assms show ?thesis by auto
next
  case False
  then have l: "length (flat r) < n" by simp
  from rdPeek_short [OF l] assms show ?thesis using l by auto
qed

lemma rdDiscard_ok:
  assumes "rdDiscard n r = (k, None, r')"
  shows "n \<le> length (flat r) \<and> k = n \<and> flat r' = drop n (flat r)"
proof (cases "n \<le> length (flat r)")
  case True
  from rdDiscard_enough [OF True] assms show ?thesis using True by auto
next
  case False
  then have "length (flat r) < n" by simp
  from rdDiscard_short [OF this] assms show ?thesis by auto
qed

lemma rdDiscard_err:
  assumes "rdDiscard n r = (k, Some e, r')"
  shows "length (flat r) < n \<and> k = length (flat r) \<and> flat r' = [] \<and> e = ReadError"
proof (cases "n \<le> length (flat r)")
  case True
  from rdDiscard_enough [OF True] assms show ?thesis by auto
next
  case False
  then have l: "length (flat r) < n" by simp
  from rdDiscard_short [OF l] assms show ?thesis using l by auto
qed

lemma rdDiscard_le:
  assumes "rdDiscard n r = (k, e, r')"
  shows "length (flat r') \<le> length (flat r)"
proof (cases e)
  case None
  with rdDiscard_ok [of n r k r'] assms show ?thesis by simp
next
  case (Some x)
  with rdDiscard_err [of n r k x r'] assms show ?thesis by simp
qed

section \<open>The protocol decoder\<close>

text \<open>
  \<^verbatim>\<open>skipSBSequence\<close>, \<^verbatim>\<open>skipCommand\<close>, \<^verbatim>\<open>ReadByte\<close> and \<^verbatim>\<open>ReadUntil\<close> use no field of the client
  but \<^verbatim>\<open>tc.reader\<close>, so they are functions of the reader, returning it updated. Every
  iteration of their loops takes at least one byte from the finite stream, which is their
  termination argument.
\<close>

function skipSBSequence :: "Reader \<Rightarrow> error option \<times> Reader" where
  "skipSBSequence r =
     (case rdDiscard 1 r of
        (_, Some e, r1) \<Rightarrow> (Some e, r1)
      | (_, None, r1) \<Rightarrow>
         (case rdPeek 2 r1 of
            (_, Some e, r2) \<Rightarrow> (Some e, r2)
          | (peeked, None, r2) \<Rightarrow>
              if peeked ! 0 = IAC \<and> peeked ! 1 = SE
              then (case rdDiscard 2 r2 of (_, e, r3) \<Rightarrow> (e, r3))
              else skipSBSequence r2))"
  by pat_completeness auto
termination
proof (relation "measure (\<lambda>r. length (flat r))")
  show "wf (measure (\<lambda>r. length (flat r)))" by simp
next
  fix r :: Reader and x y xa r1 peeked yb xc r2
  assume "(x, y) = rdDiscard 1 r" "(xa, r1) = y" "xa = None"
    and "(peeked, yb) = rdPeek 2 r1" "(xc, r2) = yb" "xc = None"
  then have d: "rdDiscard 1 r = (x, None, r1)" and p: "rdPeek 2 r1 = (peeked, None, r2)"
    by auto
  from rdDiscard_ok [OF d] rdPeek_ok [OF p]
  show "(r2, r) \<in> measure (\<lambda>r. length (flat r))" by auto
qed

definition skipCommand :: "Reader \<Rightarrow> error option \<times> Reader" where
  "skipCommand r =
     (case rdPeek 1 r of
        (_, Some e, r1) \<Rightarrow> (Some e, r1)
      | (peeked, None, r1) \<Rightarrow>
          if peeked ! 0 = WILL \<or> peeked ! 0 = WONT \<or> peeked ! 0 = DO \<or> peeked ! 0 = DONT
          then (case rdDiscard 2 r1 of (_, e, r2) \<Rightarrow> (e, r2))
          else if peeked ! 0 = SB then skipSBSequence r1
          else (None, r1))"

declare skipSBSequence.simps [simp del]

lemma skipSBSequence_le:
  "skipSBSequence r = (e, r') \<Longrightarrow> length (flat r') \<le> length (flat r)"
proof (induction r arbitrary: e r' rule: skipSBSequence.induct)
  case (1 r)
  obtain k e1 r1 where d: "rdDiscard 1 r = (k, e1, r1)"
    by (cases "rdDiscard 1 r") auto
  note l1 = rdDiscard_le [OF d]
  show ?case
  proof (cases e1)
    case (Some x)
    with d "1.prems" l1 show ?thesis
      by (simp add: skipSBSequence.simps [of r])
  next
    case None
    obtain peeked e2 r2 where p: "rdPeek 2 r1 = (peeked, e2, r2)"
      by (cases "rdPeek 2 r1") auto
    note l2 = rdPeek_flat [OF p]
    show ?thesis
    proof (cases e2)
      case (Some x)
      with d None p "1.prems" l1 l2 show ?thesis
        by (simp add: skipSBSequence.simps [of r])
    next
      case e2: None
      show ?thesis
      proof (cases "peeked ! 0 = IAC \<and> peeked ! 1 = SE")
        case True
        obtain k3 e3 r3 where d3: "rdDiscard 2 r2 = (k3, e3, r3)"
          by (cases "rdDiscard 2 r2") auto
        from rdDiscard_le [OF d3] d None p e2 True d3 "1.prems" l1 l2 show ?thesis
          by (simp add: skipSBSequence.simps [of r])
      next
        case False
        with d None p e2 "1.prems" have "skipSBSequence r2 = (e, r')"
          by (auto simp add: skipSBSequence.simps [of r])
        from "1.IH" [OF d [symmetric] refl None p [symmetric] refl e2 False this] l1 l2
        show ?thesis by simp
      qed
    qed
  qed
qed

lemma skipCommand_le:
  assumes "skipCommand r = (e, r')"
  shows "length (flat r') \<le> length (flat r)"
proof -
  obtain peeked e1 r1 where p: "rdPeek 1 r = (peeked, e1, r1)"
    by (cases "rdPeek 1 r") auto
  note l1 = rdPeek_flat [OF p]
  show ?thesis
  proof (cases e1)
    case (Some x)
    with p assms l1 show ?thesis by (simp add: skipCommand_def)
  next
    case None
    show ?thesis
    proof (cases "peeked ! 0 = WILL \<or> peeked ! 0 = WONT \<or> peeked ! 0 = DO \<or> peeked ! 0 = DONT")
      case True
      obtain k2 e2 r2 where d: "rdDiscard 2 r1 = (k2, e2, r2)"
        by (cases "rdDiscard 2 r1") auto
      from rdDiscard_le [OF d] p None True d assms l1 show ?thesis
        by (simp add: skipCommand_def)
    next
      case False
      show ?thesis
      proof (cases "peeked ! 0 = SB")
        case True
        with p None False assms have "skipSBSequence r1 = (e, r')"
          by (simp add: skipCommand_def)
        from skipSBSequence_le [OF this] l1 show ?thesis by simp
      next
        case nsb: False
        with p None False assms l1 show ?thesis
          by (simp add: skipCommand_def)
      qed
    qed
  qed
qed

function ReadByte :: "Reader \<Rightarrow> byte \<times> error option \<times> Reader" where
  "ReadByte r =
     (case rdReadByte r of
        (b, Some e, r1) \<Rightarrow> (b, Some e, r1)
      | (b, None, r1) \<Rightarrow>
          if b \<noteq> IAC then (b, None, r1)
          else
            (case skipCommand r1 of
               (Some e, r2) \<Rightarrow> (b, Some e, r2)
             | (None, r2) \<Rightarrow> ReadByte r2))"
  by pat_completeness auto
termination
proof (relation "measure (\<lambda>r. length (flat r))")
  show "wf (measure (\<lambda>r. length (flat r)))" by simp
next
  fix r :: Reader and b y xa r1 xb r2
  assume "(b, y) = rdReadByte r" "(xa, r1) = y" "xa = None"
    and "(xb, r2) = skipCommand r1" "xb = None"
  then have d: "rdReadByte r = (b, None, r1)" and p: "skipCommand r1 = (None, r2)"
    by auto
  from rdReadByte_ok [OF d] skipCommand_le [OF p]
  show "(r2, r) \<in> measure (\<lambda>r. length (flat r))" by auto
qed

declare ReadByte.simps [simp del]

text \<open>
  The decoder as a function of the bytes still to be read alone (\<open>flat\<close>): what it returns
  and what it leaves. The lemmas \<open>skipSBSequence_flat\<close>, \<open>skipCommand_flat\<close> and
  \<open>ReadByte_flat\<close> show that the functions above compute exactly this, however the
  connection cuts the stream into reads.
\<close>

fun skipSB_stream :: "bytes \<Rightarrow> error option \<times> bytes" where
  "skipSB_stream [] = (Some ReadError, [])"
| "skipSB_stream [x] = (Some ReadError, [])"
| "skipSB_stream [x, a] = (Some ReadError, [a])"
| "skipSB_stream (x # a # b # s) = (if a = IAC \<and> b = SE then (None, s) else skipSB_stream (a # b # s))"

definition skipCommand_stream :: "bytes \<Rightarrow> error option \<times> bytes" where
  "skipCommand_stream s =
     (case s of
        [] \<Rightarrow> (Some ReadError, [])
      | c # t \<Rightarrow>
          if c = WILL \<or> c = WONT \<or> c = DO \<or> c = DONT
          then (case t of [] \<Rightarrow> (Some ReadError, []) | opt # u \<Rightarrow> (None, u))
          else if c = SB then skipSB_stream s
          else (None, s))"

lemma skipSB_stream_le: "length (snd (skipSB_stream s)) \<le> length s"
  by (induction s rule: skipSB_stream.induct) auto

lemma skipCommand_stream_le: "length (snd (skipCommand_stream s)) \<le> length s"
  using skipSB_stream_le [of s] by (auto simp: skipCommand_stream_def split: list.splits)

function ReadByte_stream :: "bytes \<Rightarrow> byte \<times> error option \<times> bytes" where
  "ReadByte_stream [] = (NUL, Some ReadError, [])"
| "ReadByte_stream (x # s) =
     (if x \<noteq> IAC then (x, None, s)
      else (case skipCommand_stream s of (Some e, t) \<Rightarrow> (IAC, Some e, t) | (None, t) \<Rightarrow> ReadByte_stream t))"
  by pat_completeness auto
termination
proof (relation "measure length")
  show "wf (measure length)" by simp
next
  fix x :: byte and s :: bytes and xa t
  assume "\<not> x \<noteq> IAC" "(xa, t) = skipCommand_stream s" "xa = None"
  then have "t = snd (skipCommand_stream s)" by (metis snd_conv)
  with skipCommand_stream_le [of s] show "(t, x # s) \<in> measure length" by simp
qed

lemma skipSBSequence_flat:
  "(case skipSBSequence r of (e, r') \<Rightarrow> (e, flat r')) = skipSB_stream (flat r)"
proof (induction "flat r" arbitrary: r rule: skipSB_stream.induct)
  case 1
  then have "length (flat r) < 1" by simp
  from rdDiscard_short [OF this] show ?case
    using "1" [symmetric] by (auto simp: skipSBSequence.simps [of r])
next
  case (2 x)
  then have f: "flat r = [x]" by simp
  then have "1 \<le> length (flat r)" by simp
  from rdDiscard_enough [OF this] f obtain r1 where
    d: "rdDiscard 1 r = (1, None, r1)" and f1: "flat r1 = []" by auto
  then have "length (flat r1) < 2" by simp
  from rdPeek_short [OF this] f1 obtain r2 where
    "rdPeek 2 r1 = ([], Some ReadError, r2)" "flat r2 = []" by auto
  with d f show ?case by (simp add: skipSBSequence.simps [of r])
next
  case (3 x a)
  then have f: "flat r = [x, a]" by simp
  then have "1 \<le> length (flat r)" by simp
  from rdDiscard_enough [OF this] f obtain r1 where
    d: "rdDiscard 1 r = (1, None, r1)" and f1: "flat r1 = [a]" by auto
  then have "length (flat r1) < 2" by simp
  from rdPeek_short [OF this] f1 obtain r2 where
    "rdPeek 2 r1 = ([a], Some ReadError, r2)" "flat r2 = [a]" by auto
  with d f show ?case by (simp add: skipSBSequence.simps [of r])
next
  case (4 x a b s)
  then have f: "flat r = x # a # b # s" by simp
  then have "1 \<le> length (flat r)" by simp
  from rdDiscard_enough [OF this] f obtain r1 where
    d: "rdDiscard 1 r = (1, None, r1)" and f1: "flat r1 = a # b # s" by auto
  then have "2 \<le> length (flat r1)" by simp
  from rdPeek_enough [OF this] f1 obtain r2 where
    p: "rdPeek 2 r1 = ([a, b], None, r2)" and f2: "flat r2 = a # b # s" by auto
  show ?case
  proof (cases "a = IAC \<and> b = SE")
    case True
    from f2 have "2 \<le> length (flat r2)" by simp
    from rdDiscard_enough [OF this] f2 obtain r3 where
      "rdDiscard 2 r2 = (2, None, r3)" "flat r3 = s" by auto
    with d p f True show ?thesis by (simp add: skipSBSequence.simps [of r])
  next
    case False
    from "4.hyps" (1) [OF False f2 [symmetric]] d p f f2 False show ?thesis
      by (auto simp add: skipSBSequence.simps [of r])
  qed
qed

lemma skipCommand_flat:
  "(case skipCommand r of (e, r') \<Rightarrow> (e, flat r')) = skipCommand_stream (flat r)"
proof (cases "flat r")
  case Nil
  then have "length (flat r) < 1" by simp
  from rdPeek_short [OF this] Nil show ?thesis
    by (auto simp: skipCommand_def skipCommand_stream_def)
next
  case (Cons c t)
  then have "1 \<le> length (flat r)" by simp
  from rdPeek_enough [OF this] Cons obtain r1 where
    p: "rdPeek 1 r = ([c], None, r1)" and f1: "flat r1 = c # t" by auto
  show ?thesis
  proof (cases "c = WILL \<or> c = WONT \<or> c = DO \<or> c = DONT")
    case True
    show ?thesis
    proof (cases t)
      case Nil
      with f1 have "length (flat r1) < 2" by simp
      from rdDiscard_short [OF this] obtain r2 where
        "rdDiscard 2 r1 = (length (flat r1), Some ReadError, r2)" "flat r2 = []" by auto
      with p True Cons Nil show ?thesis by (simp add: skipCommand_def skipCommand_stream_def)
    next
      case (Cons opt u)
      with f1 have "2 \<le> length (flat r1)" by simp
      from rdDiscard_enough [OF this] f1 Cons obtain r2 where
        "rdDiscard 2 r1 = (2, None, r2)" "flat r2 = u" by auto
      with p True \<open>flat r = c # t\<close> Cons show ?thesis by (simp add: skipCommand_def skipCommand_stream_def)
    qed
  next
    case False
    show ?thesis
    proof (cases "c = SB")
      case True
      with p False Cons f1 skipSBSequence_flat [of r1] show ?thesis
        by (simp add: skipCommand_def skipCommand_stream_def)
    next
      case nsb: False
      with p False Cons f1 show ?thesis
        by (simp add: skipCommand_def skipCommand_stream_def)
    qed
  qed
qed

lemma ReadByte_flat:
  "(case ReadByte r of (b, e, r') \<Rightarrow> (b, e, flat r')) = ReadByte_stream (flat r)"
proof (induction "flat r" arbitrary: r rule: ReadByte_stream.induct)
  case 1
  from rdReadByte_Nil [OF "1" [symmetric]] "1" [symmetric] show ?case
    by (auto simp: ReadByte.simps [of r])
next
  case (2 x s)
  from rdReadByte_Cons [OF "2.hyps" (2) [symmetric]] obtain r1 where
    rb: "rdReadByte r = (x, None, r1)" and f1: "flat r1 = s" by auto
  show ?case
  proof (cases "x = IAC")
    case False
    with rb f1 "2.hyps" (2) [symmetric] show ?thesis by (simp add: ReadByte.simps [of r])
  next
    case True
    obtain e2 r2 where sc: "skipCommand r1 = (e2, r2)" by (cases "skipCommand r1") auto
    with skipCommand_flat [of r1] f1 have cs: "skipCommand_stream s = (e2, flat r2)" by simp
    show ?thesis
    proof (cases e2)
      case (Some e)
      with rb True sc cs "2.hyps" (2) [symmetric] show ?thesis
        by (simp add: ReadByte.simps [of r])
    next
      case None
      have "(case ReadByte r2 of (b, e, r') \<Rightarrow> (b, e, flat r')) = ReadByte_stream (flat r2)"
        using "2.hyps" (1) [OF _ cs [symmetric] None] True by simp
      with rb True sc cs None "2.hyps" (2) [symmetric] show ?thesis
        by (simp add: ReadByte.simps [of r])
    qed
  qed
qed

lemma ReadByte_less:
  "ReadByte r = (b, None, r') \<Longrightarrow> length (flat r') < length (flat r)"
proof (induction r arbitrary: b r' rule: ReadByte.induct)
  case (1 r)
  obtain b1 e1 r1 where rb: "rdReadByte r = (b1, e1, r1)"
    by (cases "rdReadByte r") auto
  show ?case
  proof (cases e1)
    case (Some x)
    with rb "1.prems" show ?thesis by (simp add: ReadByte.simps [of r])
  next
    case None
    note l1 = rdReadByte_ok [OF rb [unfolded None]]
    show ?thesis
    proof (cases "b1 = IAC")
      case False
      with rb None "1.prems" l1 show ?thesis by (simp add: ReadByte.simps [of r])
    next
      case True
      obtain e2 r2 where sc: "skipCommand r1 = (e2, r2)"
        by (cases "skipCommand r1") auto
      note l2 = skipCommand_le [OF sc]
      show ?thesis
      proof (cases e2)
        case (Some x)
        with rb None True sc "1.prems" show ?thesis by (simp add: ReadByte.simps [of r])
      next
        case e2: None
        with rb None True sc "1.prems" have "ReadByte r2 = (b, None, r')"
          by (simp add: ReadByte.simps [of r])
        from "1.IH" [OF rb [symmetric] refl None _ sc [symmetric] e2 this] True l1 l2
        show ?thesis by simp
      qed
    qed
  qed
qed

text \<open>
  \<^verbatim>\<open>ReadUntil\<close>: the loop variable \<open>b\<close> starts as the zero byte and \<open>n\<close> as 0; \<open>data\<close> is the
  slice behind the pointer, returned with the bytes appended. \<open>n\<close> is a Go \<^verbatim>\<open>int\<close>; it
  counts appended bytes, so it stays far below the 64-bit bound and is a natural number here.
\<close>

function ReadUntil_loop ::
  "byte \<Rightarrow> nat \<Rightarrow> bytes \<Rightarrow> byte \<Rightarrow> Reader \<Rightarrow> nat \<times> error option \<times> bytes \<times> Reader" where
  "ReadUntil_loop b n data delim r =
     (if b = delim then (n, None, data, r)
      else
        (case ReadByte r of
           (b', Some e, r1) \<Rightarrow> (n, Some e, data, r1)
         | (b', None, r1) \<Rightarrow> ReadUntil_loop b' (n + 1) (data @ [b']) delim r1))"
  by pat_completeness auto
termination
proof (relation "measure (\<lambda>(b, n, data, delim, r). length (flat r))")
  show "wf (measure (\<lambda>(b, n, data, delim, r). length (flat r)))" by simp
next
  fix b :: byte and n :: nat and data :: bytes and delim :: byte and r :: Reader
    and b' y xa r1
  assume "b \<noteq> delim" "(b', y) = ReadByte r" "(xa, r1) = y" "xa = None"
  then have "ReadByte r = (b', None, r1)" by auto
  from ReadByte_less [OF this]
  show "((b', n + 1, data @ [b'], delim, r1), (b, n, data, delim, r))
          \<in> measure (\<lambda>(b, n, data, delim, r). length (flat r))"
    by simp
qed

declare ReadUntil_loop.simps [simp del]

definition ReadUntil :: "bytes \<Rightarrow> byte \<Rightarrow> Reader \<Rightarrow> nat \<times> error option \<times> bytes \<times> Reader" where
  "ReadUntil data delim r = ReadUntil_loop NUL 0 data delim r"

text \<open>
  \<open>payload r\<close> is what the decoder delivers from the reader \<open>r\<close>: the bytes that successive
  calls of \<^verbatim>\<open>ReadByte\<close> return, up to the first call that fails. \<open>payload_stream\<close> is the
  same for the stream-level decoder.
\<close>

function payload :: "Reader \<Rightarrow> bytes" where
  "payload r =
     (case ReadByte r of
        (b, None, r1) \<Rightarrow> b # payload r1
      | (b, Some e, r1) \<Rightarrow> [])"
  by pat_completeness auto
termination
proof (relation "measure (\<lambda>r. length (flat r))")
  show "wf (measure (\<lambda>r. length (flat r)))" by simp
next
  fix r :: Reader and b y xa r1
  assume "(b, y) = ReadByte r" "(xa, r1) = y" "xa = None"
  then have "ReadByte r = (b, None, r1)" by auto
  from ReadByte_less [OF this] show "(r1, r) \<in> measure (\<lambda>r. length (flat r))" by simp
qed

declare payload.simps [simp del]

lemma ReadByte_stream_less:
  "ReadByte_stream s = (b, None, t) \<Longrightarrow> length t < length s"
proof (induction s arbitrary: b t rule: ReadByte_stream.induct)
  case 1
  then show ?case by simp
next
  case (2 x s)
  show ?case
  proof (cases "x = IAC")
    case False
    with "2.prems" show ?thesis by simp
  next
    case True
    obtain e u where c: "skipCommand_stream s = (e, u)" by (cases "skipCommand_stream s") auto
    with skipCommand_stream_le [of s] have l: "length u \<le> length s" by simp
    show ?thesis
    proof (cases e)
      case (Some a)
      with True c "2.prems" show ?thesis by simp
    next
      case None
      with True c "2.prems" have "ReadByte_stream u = (b, None, t)" by simp
      from "2.IH" [OF _ c [symmetric] None this] True l show ?thesis by simp
    qed
  qed
qed

function payload_stream :: "bytes \<Rightarrow> bytes" where
  "payload_stream s =
     (case ReadByte_stream s of
        (b, None, t) \<Rightarrow> b # payload_stream t
      | (b, Some e, t) \<Rightarrow> [])"
  by pat_completeness auto
termination
proof (relation "measure length")
  show "wf (measure length)" by simp
next
  fix s :: bytes and b y xa t
  assume "(b, y) = ReadByte_stream s" "(xa, t) = y" "xa = None"
  then have "ReadByte_stream s = (b, None, t)" by auto
  from ReadByte_stream_less [OF this] show "(t, s) \<in> measure length" by simp
qed

declare payload_stream.simps [simp del]

lemma payload_flat: "payload r = payload_stream (flat r)"
proof (induction r rule: payload.induct)
  case (1 r)
  obtain b e r1 where rb: "ReadByte r = (b, e, r1)" by (cases "ReadByte r") auto
  with ReadByte_flat [of r] have rs: "ReadByte_stream (flat r) = (b, e, flat r1)" by simp
  show ?case
  proof (cases e)
    case None
    from "1.IH" [OF rb [symmetric] refl None] rb rs None show ?thesis
      by (simp add: payload.simps [of r] payload_stream.simps [of "flat r"])
  next
    case (Some a)
    with rb rs show ?thesis
      by (simp add: payload.simps [of r] payload_stream.simps [of "flat r"])
  qed
qed

lemma payload_stream_Nil: "payload_stream [] = []"
  by (simp add: payload_stream.simps [of "[]"])

lemma payload_stream_plain:
  "x \<noteq> IAC \<Longrightarrow> payload_stream (x # s) = x # payload_stream s"
  by (simp add: payload_stream.simps [of "x # s"])

lemma payload_stream_append:
  "IAC \<notin> set p \<Longrightarrow> payload_stream (p @ s) = p @ payload_stream s"
  by (induction p) (auto simp: payload_stream_plain)

lemma payload_stream_skip:
  "skipCommand_stream s = (None, t) \<Longrightarrow> payload_stream (IAC # s) = payload_stream t"
  by (simp add: payload_stream.simps [of "IAC # s"] payload_stream.simps [of t])

lemma skipSB_stream_found:
  "\<forall>j. Suc j < length inner \<longrightarrow> \<not> (inner ! j = IAC \<and> inner ! Suc j = SE) \<Longrightarrow>
   skipSB_stream (x # inner @ IAC # SE # s) = (None, s)"
proof (induction inner arbitrary: x)
  case Nil
  then show ?case by simp
next
  case (Cons a rest)
  have ih: "skipSB_stream (a # rest @ IAC # SE # s) = (None, s)"
  proof (rule Cons.IH, intro allI impI)
    fix j assume "Suc j < length rest"
    with Cons.prems [rule_format, of "Suc j"]
    show "\<not> (rest ! j = IAC \<and> rest ! Suc j = SE)" by simp
  qed
  show ?case
  proof (cases rest)
    case Nil
    with ih show ?thesis by simp
  next
    case (Cons b rest')
    with Cons.prems [rule_format, of 0] have "\<not> (a = IAC \<and> b = SE)" by simp
    with ih Cons show ?thesis by simp
  qed
qed

section \<open>The prompt scanner\<close>

text \<open>
  \<^verbatim>\<open>findNewLinePos\<close>: \<open>i\<close> runs from the last index down to 0, \<open>pb\<close> is the byte visited just
  before (the one at \<open>i + 1\<close>), the zero byte at first. The loop is entered with
  \<open>i = len(data) - 1\<close>, so \<open>data ! nat i\<close> is always in range.
\<close>

function findNewLinePos_loop :: "bytes \<Rightarrow> int \<Rightarrow> byte \<Rightarrow> int" where
  "findNewLinePos_loop data i pb =
     (if i \<ge> 0 then
        (let cb = data ! nat i in
         if pb = LF \<and> cb = CR then i
         else findNewLinePos_loop data (i - 1) cb)
      else - 1)"
  by pat_completeness auto
termination
  by (relation "measure (\<lambda>(data, i, pb). nat (i + 1))") auto

declare findNewLinePos_loop.simps [simp del]

definition findNewLinePos :: "bytes \<Rightarrow> int" where
  "findNewLinePos data = findNewLinePos_loop data (int (length data) - 1) NUL"

text \<open>
  \<open>crlfAt data i\<close>: the two bytes carriage return, line feed stand at the indices \<open>i\<close> and
  \<open>i + 1\<close> of \<open>data\<close>. \<open>lineStart data\<close> is the offset behind the last such pair, 0 when
  there is none, and \<open>currentLine data\<close> what follows that offset.
\<close>

definition crlfAt :: "bytes \<Rightarrow> nat \<Rightarrow> bool" where
  "crlfAt data i = (Suc i < length data \<and> data ! i = CR \<and> data ! Suc i = LF)"

definition lineStart :: "bytes \<Rightarrow> int" where
  "lineStart data = (if findNewLinePos data \<noteq> - 1 then findNewLinePos data + 2 else 0)"

definition currentLine :: "bytes \<Rightarrow> bytes" where
  "currentLine data = drop (nat (lineStart data)) data"

section \<open>Patterns\<close>

text \<open>
  The client holds three compiled patterns of Go's \<^verbatim>\<open>regexp\<close> package. The model covers the
  patterns built like the three defaults: a sequence of nodes, each one byte of a character
  class (\<open>OneOf\<close>) or a greedy repetition \<^verbatim>\<open>+\<close> of a class (\<open>PlusOf\<close>). A class is a list of
  inclusive byte ranges, as the package stores it. \<^verbatim>\<open>(\$|#)\<close> matches one byte, \<^verbatim>\<open>$\<close> or
  \<^verbatim>\<open>#\<close>, and is the class of these two. The package matches leftmost-first (the match a
  backtracking matcher finds first, a repetition trying its longest run first):
  \<open>matchHere\<close> is the length of that match at the start of the input, \<open>matchStar\<close> the
  matcher inside a repetition that has taken one byte. All classes of the program hold
  ASCII bytes only, so matching bytes is matching the runes the package decodes.
\<close>

type_synonym charClass = "(byte \<times> byte) list"

definition inClass :: "charClass \<Rightarrow> byte \<Rightarrow> bool" where
  "inClass cls c =
     list_ex (\<lambda>(lo, hi). (of_char lo :: nat) \<le> of_char c \<and> (of_char c :: nat) \<le> of_char hi) cls"

datatype node = OneOf charClass | PlusOf charClass

type_synonym Regexp = "node list"

fun matchHere :: "Regexp \<Rightarrow> bytes \<Rightarrow> nat option"
  and matchStar :: "charClass \<Rightarrow> Regexp \<Rightarrow> bytes \<Rightarrow> nat option" where
  "matchHere [] s = Some 0"
| "matchHere (OneOf cls # re) [] = None"
| "matchHere (OneOf cls # re) (x # xs) =
     (if inClass cls x then map_option Suc (matchHere re xs) else None)"
| "matchHere (PlusOf cls # re) [] = None"
| "matchHere (PlusOf cls # re) (x # xs) =
     (if inClass cls x then map_option Suc (matchStar cls re xs) else None)"
| "matchStar cls re [] = matchHere re []"
| "matchStar cls re (x # xs) =
     (if inClass cls x then
        (case matchStar cls re xs of
           Some n \<Rightarrow> Some (Suc n)
         | None \<Rightarrow> matchHere re (x # xs))
      else matchHere re (x # xs))"

text \<open>
  \<^verbatim>\<open>re.Find(b)\<close> is the text of the leftmost match, and nil when there is none; the program
  only takes its length, so nil is the empty list here. \<^verbatim>\<open>re.ReplaceAll(src, repl)\<close> is
  only called with the empty replacement: it drops every match, searching on from the end
  of the one before; an empty match (of the empty pattern) drops nothing.
\<close>

fun Find :: "Regexp \<Rightarrow> bytes \<Rightarrow> bytes" where
  "Find re [] = []"
| "Find re (x # xs) =
     (case matchHere re (x # xs) of
        Some n \<Rightarrow> take n (x # xs)
      | None \<Rightarrow> Find re xs)"

fun ReplaceAll :: "Regexp \<Rightarrow> bytes \<Rightarrow> bytes" where
  "ReplaceAll re [] = []"
| "ReplaceAll re (x # xs) =
     (case matchHere re (x # xs) of
        Some (Suc n) \<Rightarrow> ReplaceAll re (drop n xs)
      | _ \<Rightarrow> x # ReplaceAll re xs)"

text \<open>\<^verbatim>\<open>bytes.Trim(s, cutset)\<close> drops the leading and the trailing bytes that are in the cutset.\<close>

definition Trim :: "bytes \<Rightarrow> bytes \<Rightarrow> bytes" where
  "Trim s cutset =
     rev (dropWhile (\<lambda>c. c \<in> set cutset) (rev (dropWhile (\<lambda>c. c \<in> set cutset) s)))"

text \<open>
  The default patterns. \<^verbatim>\<open>[\w\d-_]\<close> is the word bytes, the digits, \<^verbatim>\<open>-\<close> and \<^verbatim>\<open>_\<close> (after a
  class escape the \<^verbatim>\<open>-\<close> is a literal); in \<^verbatim>\<open>[\w\d/-_~]\<close> the \<^verbatim>\<open>/-_\<close> is the range from \<^verbatim>\<open>/\<close>
  to \<^verbatim>\<open>_\<close>.
\<close>

definition perl_w :: charClass where
  "perl_w = [(CHR ''0'', CHR ''9''), (CHR ''A'', CHR ''Z''), (CHR ''_'', CHR ''_''),
             (CHR ''a'', CHR ''z'')]"

definition perl_d :: charClass where
  "perl_d = [(CHR ''0'', CHR ''9'')]"

definition lit :: "string \<Rightarrow> Regexp" where
  "lit s = map (\<lambda>c. OneOf [(c, c)]) s"

definition nameClass :: charClass where
  "nameClass = perl_w @ perl_d @ [(CHR ''-'', CHR ''-''), (CHR ''_'', CHR ''_'')]"

definition pathClass :: charClass where
  "pathClass = perl_w @ perl_d @ [(CHR ''/'', CHR ''_''), (CHR ''~'', CHR ''~'')]"

definition defaultLoginRe :: Regexp where
  "defaultLoginRe = PlusOf nameClass # lit '' login:''"

definition defaultPasswordRe :: Regexp where
  "defaultPasswordRe = lit ''Password:''"

definition defaultBannerRe :: Regexp where
  "defaultBannerRe =
     [PlusOf nameClass, OneOf [(CHR ''@'', CHR ''@'')], PlusOf nameClass,
      OneOf [(CHR '':'', CHR '':'')], PlusOf pathClass,
      OneOf [(CHR ''$'', CHR ''$''), (CHR ''#'', CHR ''#'')]]"

section \<open>The client\<close>

text \<open>
  The fields of \<^verbatim>\<open>TelnetClient\<close> that the read and write paths use, after \<^verbatim>\<open>Dial\<close> has filled
  in the defaults. \<open>reader\<close> is \<^verbatim>\<open>tc.reader\<close>. The write side is \<^verbatim>\<open>tc.writer\<close>, a
  \<^verbatim>\<open>bufio.Writer\<close> of the default size over the connection: \<open>wr_err\<close> is the error the writer
  holds once a write on the connection has failed (it then refuses every write), \<open>sent\<close>
  the bytes that the connection has taken so far, and \<open>wr_limit\<close> how the connection will
  behave: \<open>Some m\<close> when it takes \<open>m\<close> bytes in all and fails the write that goes beyond
  them, \<open>None\<close> when it takes every write. Only \<^verbatim>\<open>Write\<close> uses the writer and it flushes in
  every call, so the buffer of a writer without error is empty between the calls, and
  the buffer of a writer with an error is never sent: the buffer is no field of the state.
\<close>

record TelnetClient =
  Login :: string
  Password :: string
  Delimiter :: byte
  LoginRe :: Regexp
  PasswordRe :: Regexp
  BannerRe :: Regexp
  reader :: Reader
  wr_err :: "error option"
  sent :: bytes
  wr_limit :: "nat option"

text \<open>
  \<^verbatim>\<open>tc.conn.Write(p)\<close>: the connection takes the bytes of \<open>p\<close> that still fit under its limit
  and returns their number, with an error when that is not all of \<open>p\<close>.
\<close>

definition connRoom :: "TelnetClient \<Rightarrow> nat \<Rightarrow> nat" where
  "connRoom tc n =
     (case wr_limit tc of
        None \<Rightarrow> n
      | Some m \<Rightarrow> min n (m - length (sent tc)))"

definition connWrite :: "TelnetClient \<Rightarrow> bytes \<Rightarrow> nat \<times> error option \<times> TelnetClient" where
  "connWrite tc p =
     (let n = connRoom tc (length p)
      in (n, if n < length p then Some WriteError else None, tc\<lparr>sent := sent tc @ take n p\<rparr>))"

text \<open>
  \<^verbatim>\<open>tc.writer.Write(data)\<close> and \<^verbatim>\<open>tc.writer.Flush()\<close> on a writer whose buffer is empty at the
  call of \<^verbatim>\<open>Write\<close>. A writer that holds an error returns it and does nothing. Data that
  fit into the buffer (\<^verbatim>\<open>defaultBufSize\<close>, 4096 bytes) are copied there: the third component
  of the result of \<open>wrWrite\<close> is the buffer after the call; longer data go to the connection
  at once. \<^verbatim>\<open>Flush\<close> writes the buffer to the connection, if it is not empty. An error of the
  connection stays in the writer.
\<close>

definition defaultBufSize :: nat where
  "defaultBufSize = 4096"

definition wrWrite :: "TelnetClient \<Rightarrow> bytes \<Rightarrow> nat \<times> error option \<times> bytes \<times> TelnetClient" where
  "wrWrite tc data =
     (case wr_err tc of
        Some e \<Rightarrow> (0, Some e, [], tc)
      | None \<Rightarrow>
          if length data \<le> defaultBufSize then (length data, None, data, tc)
          else
            (case connWrite tc data of
               (n, Some e, tc1) \<Rightarrow> (n, Some e, [], tc1\<lparr>wr_err := Some e\<rparr>)
             | (n, None, tc1) \<Rightarrow> (n, None, [], tc1)))"

definition wrFlush :: "TelnetClient \<Rightarrow> bytes \<Rightarrow> error option \<times> TelnetClient" where
  "wrFlush tc buffered =
     (case wr_err tc of
        Some e \<Rightarrow> (Some e, tc)
      | None \<Rightarrow>
          if length buffered = 0 then (None, tc)
          else
            (case connWrite tc buffered of
               (n, Some e, tc1) \<Rightarrow> (Some e, tc1\<lparr>wr_err := Some e\<rparr>)
             | (n, None, tc1) \<Rightarrow> (None, tc1)))"

text \<open>
  \<^verbatim>\<open>Write\<close>: the count is the one of the writer's \<^verbatim>\<open>Write\<close>; the error is its error or, when
  it has none, the error of \<^verbatim>\<open>Flush\<close>. So a write that fits into the buffer and fails in
  \<^verbatim>\<open>Flush\<close> returns the length of the data together with the error.
\<close>

definition Write :: "TelnetClient \<Rightarrow> bytes \<Rightarrow> nat \<times> error option \<times> TelnetClient" where
  "Write tc data =
     (case wrWrite tc data of
        (n, Some e, buffered, tc1) \<Rightarrow> (n, Some e, tc1)
      | (n, None, buffered, tc1) \<Rightarrow>
          (case wrFlush tc1 buffered of
             (err, tc2) \<Rightarrow> (n, err, tc2)))"

text \<open>
  One pass of the loop of \<^verbatim>\<open>ReadUntilPrompt\<close> up to the call of \<^verbatim>\<open>process\<close>: on a read error
  \<open>Inl\<close> with the error and the output so far, otherwise \<open>Inr\<close> with the new \<open>delimPos\<close>,
  \<open>linePos\<close>, \<open>output\<close> and the chunk \<^verbatim>\<open>output[linePos:delimPos]\<close>. A slice expression
  panics when its bounds are out of order or beyond the slice; that is the error
  \<open>SliceBounds\<close>. (Go allows an upper bound up to the capacity, which is at least the
  length; the model takes the length, and the invariant of the loop proved below shows
  that the loop never passes it.)
\<close>

definition ReadUntilPrompt_scan ::
  "int \<Rightarrow> int \<Rightarrow> bytes \<Rightarrow> TelnetClient \<Rightarrow>
   (error \<times> bytes \<times> TelnetClient) + (int \<times> int \<times> bytes \<times> bytes \<times> TelnetClient)" where
  "ReadUntilPrompt_scan delimPos linePos output tc =
     (case ReadUntil output (Delimiter tc) (reader tc) of
        (n, Some e, output1, r1) \<Rightarrow> Inl (e, output1, tc\<lparr>reader := r1\<rparr>)
      | (n, None, output1, r1) \<Rightarrow>
          (let delimPos1 = delimPos + int n;
               n2 = findNewLinePos output1;
               linePos1 = (if n2 \<noteq> - 1 then n2 + 2 else linePos)
           in if 0 \<le> linePos1 \<and> linePos1 \<le> delimPos1 \<and> delimPos1 \<le> int (length output1)
              then Inr (delimPos1, linePos1, output1,
                        take (nat (delimPos1 - linePos1)) (drop (nat linePos1) output1),
                        tc\<lparr>reader := r1\<rparr>)
              else Inl (SliceBounds, output1, tc\<lparr>reader := r1\<rparr>)))"

text \<open>
  \<^verbatim>\<open>process\<close> is a closure over the client: it gets the client and the chunk and returns
  its verdict and the client as it leaves it. The loop has no bound of its own: with a
  zero delimiter \<^verbatim>\<open>ReadUntil\<close> reads nothing, and the loop runs forever when \<^verbatim>\<open>process\<close> keeps
  returning false. Not returning is the value \<open>None\<close>.
\<close>

partial_function (option) ReadUntilPrompt_loop ::
  "(TelnetClient \<Rightarrow> bytes \<Rightarrow> bool \<times> TelnetClient) \<Rightarrow> int \<Rightarrow> int \<Rightarrow> bytes \<Rightarrow> TelnetClient \<Rightarrow>
   (bytes \<times> error option \<times> TelnetClient) option" where
  "ReadUntilPrompt_loop process delimPos linePos output tc =
     (case ReadUntilPrompt_scan delimPos linePos output tc of
        Inl (e, output1, tc1) \<Rightarrow> Some (output1, Some e, tc1)
      | Inr (delimPos1, linePos1, output1, chunk, tc1) \<Rightarrow>
          (case process tc1 chunk of
             (stop, tc2) \<Rightarrow>
               if stop then Some (output1, None, tc2)
               else ReadUntilPrompt_loop process delimPos1 linePos1 output1 tc2))"

text \<open>
  The variables of the loop when it starts its pass number \<open>k + 1\<close>, if it gets there:
  \<open>None\<close> when the loop has returned before.
\<close>

fun ReadUntilPrompt_iter ::
  "(TelnetClient \<Rightarrow> bytes \<Rightarrow> bool \<times> TelnetClient) \<Rightarrow> nat \<Rightarrow>
   int \<times> int \<times> bytes \<times> TelnetClient \<Rightarrow> (int \<times> int \<times> bytes \<times> TelnetClient) option" where
  "ReadUntilPrompt_iter process 0 st = Some st"
| "ReadUntilPrompt_iter process (Suc k) (delimPos, linePos, output, tc) =
     (case ReadUntilPrompt_scan delimPos linePos output tc of
        Inl _ \<Rightarrow> None
      | Inr (delimPos1, linePos1, output1, chunk, tc1) \<Rightarrow>
          (case process tc1 chunk of
             (stop, tc2) \<Rightarrow>
               if stop then None
               else ReadUntilPrompt_iter process k (delimPos1, linePos1, output1, tc2)))"

declare ReadUntilPrompt_loop.simps [code]

definition ReadUntilPrompt ::
  "(TelnetClient \<Rightarrow> bytes \<Rightarrow> bool \<times> TelnetClient) \<Rightarrow> TelnetClient \<Rightarrow>
   (bytes \<times> error option \<times> TelnetClient) option" where
  "ReadUntilPrompt process tc = ReadUntilPrompt_loop process 0 0 [] tc"

text \<open>
  \<open>bannerFound\<close> is the closure that \<^verbatim>\<open>ReadUntilBanner\<close> passes to \<^verbatim>\<open>ReadUntilPrompt\<close>, and
  \<open>welcomeSign\<close> the one that \<^verbatim>\<open>waitWelcomeSigns\<close> passes. Logging writes to the log writer
  only and is left out.
\<close>

definition bannerFound :: "TelnetClient \<Rightarrow> bytes \<Rightarrow> bool \<times> TelnetClient" where
  "bannerFound tc data = (let m = Find (BannerRe tc) data in (length m > 0, tc))"

definition ReadUntilBanner :: "TelnetClient \<Rightarrow> (bytes \<times> error option \<times> TelnetClient) option" where
  "ReadUntilBanner tc =
     (case ReadUntilPrompt bannerFound tc of
        None \<Rightarrow> None
      | Some (output, err, tc1) \<Rightarrow>
          (let output1 = ReplaceAll (BannerRe tc1) output;
               output2 = Trim output1 '' ''
           in Some (output2, err, tc1)))"

definition findInputPrompt ::
  "TelnetClient \<Rightarrow> Regexp \<Rightarrow> string \<Rightarrow> bytes \<Rightarrow> bool \<times> TelnetClient" where
  "findInputPrompt tc re response buffer =
     (let match = Find re buffer in
      if length match = 0 then (False, tc)
      else (case Write tc (response @ [CR, LF]) of (_, _, tc1) \<Rightarrow> (True, tc1)))"

definition welcomeSign :: "TelnetClient \<Rightarrow> bytes \<Rightarrow> bool \<times> TelnetClient" where
  "welcomeSign tc data =
     (case findInputPrompt tc (LoginRe tc) (Login tc) data of
        (found, tc1) \<Rightarrow>
          if found then (False, tc1)
          else
            (case findInputPrompt tc1 (PasswordRe tc1) (Password tc1) data of
               (found, tc2) \<Rightarrow>
                 if found then (False, tc2)
                 else (let m = Find (BannerRe tc2) data in (length m > 0, tc2))))"

definition waitWelcomeSigns :: "TelnetClient \<Rightarrow> (error option \<times> TelnetClient) option" where
  "waitWelcomeSigns tc =
     (case ReadUntilPrompt welcomeSign tc of
        None \<Rightarrow> None
      | Some (_, err, tc1) \<Rightarrow> Some (err, tc1))"

text \<open>\<^verbatim>\<open>strings.Join(elems, sep)\<close>.\<close>

fun Join :: "string list \<Rightarrow> string \<Rightarrow> string" where
  "Join [] sep = []"
| "Join [a] sep = a"
| "Join (a # b # elems) sep = a @ sep @ Join (b # elems) sep"

definition Execute ::
  "TelnetClient \<Rightarrow> string \<Rightarrow> string list \<Rightarrow> (bytes \<times> error option \<times> TelnetClient) option" where
  "Execute tc name args =
     (case rdDiscard (rdBuffered (reader tc)) (reader tc) of
        (_, Some e, r1) \<Rightarrow> Some ([], Some e, tc\<lparr>reader := r1\<rparr>)
      | (_, None, r1) \<Rightarrow>
          (let tc1 = tc\<lparr>reader := r1\<rparr>;
               request = name @ '' '' @ Join args '' '' @ [CR, LF]
           in case Write tc1 request of (_, _, tc2) \<Rightarrow> ReadUntilBanner tc2))"

text \<open>
  A client with the default patterns and delimiter, \<open>buffered\<close> already in the reader's
  buffer and \<open>chunks\<close> still to come from the connection, on a connection that takes
  every write: the input of the examples.
\<close>

definition defaultClient :: "bytes \<Rightarrow> bytes list \<Rightarrow> TelnetClient" where
  "defaultClient buffered chunks =
     \<lparr>Login = ''admin'', Password = ''secret'', Delimiter = defaultDelimiter,
      LoginRe = defaultLoginRe, PasswordRe = defaultPasswordRe, BannerRe = defaultBannerRe,
      reader = \<lparr>buf = buffered, src = chunks\<rparr>, wr_err = None, sent = [],
      wr_limit = None\<rparr>"

section \<open>Lemmas on the scanner\<close>

lemma findNewLinePos_loop_spec:
  "- 1 \<le> i \<Longrightarrow> i < int (length data) \<Longrightarrow>
   pb = (if nat (i + 1) < length data then data ! nat (i + 1) else NUL) \<Longrightarrow>
   (findNewLinePos_loop data i pb = - 1 \<and> (\<forall>j. int j \<le> i \<longrightarrow> \<not> crlfAt data j)) \<or>
   (0 \<le> findNewLinePos_loop data i pb \<and> findNewLinePos_loop data i pb \<le> i \<and>
    crlfAt data (nat (findNewLinePos_loop data i pb)) \<and>
    (\<forall>j. findNewLinePos_loop data i pb < int j \<and> int j \<le> i \<longrightarrow> \<not> crlfAt data j))"
proof (induction data i pb rule: findNewLinePos_loop.induct)
  case (1 data i pb)
  show ?case
  proof (cases "i \<ge> 0")
    case False
    then have "findNewLinePos_loop data i pb = - 1"
      by (simp add: findNewLinePos_loop.simps [of data i pb])
    with False show ?thesis by auto
  next
    case True
    have suc: "nat (i + 1) = Suc (nat i)" using True by simp
    show ?thesis
    proof (cases "pb = LF \<and> data ! nat i = CR")
      case hit: True
      then have "pb \<noteq> NUL" by simp
      with "1.prems" (3) have "nat (i + 1) < length data" by (auto split: if_splits)
      with "1.prems" (3) hit suc have "crlfAt data (nat i)"
        by (simp add: crlfAt_def)
      moreover have "findNewLinePos_loop data i pb = i"
        using True hit by (subst findNewLinePos_loop.simps [of data i pb]) simp
      ultimately show ?thesis using True by auto
    next
      case miss: False
      have r: "findNewLinePos_loop data i pb = findNewLinePos_loop data (i - 1) (data ! nat i)"
        using True miss by (subst findNewLinePos_loop.simps [of data i pb]) (auto simp add: Let_def)
      have nohit: "\<not> crlfAt data (nat i)"
        using miss "1.prems" (3) suc by (auto simp: crlfAt_def)
      have pre: "data ! nat i =
          (if nat (i - 1 + 1) < length data then data ! nat (i - 1 + 1) else NUL)"
      proof -
        have "nat i < length data" using True "1.prems" (2) by linarith
        then show ?thesis by simp
      qed
      have b: "- 1 \<le> i - 1" "i - 1 < int (length data)" using True "1.prems" by simp_all
      note ih = "1.IH" [OF True refl miss b pre]
      have step: "\<not> crlfAt data j" if "int j \<le> i" "\<not> int j \<le> i - 1" for j
      proof -
        from that have "j = nat i" by linarith
        with nohit show ?thesis by simp
      qed
      from ih show ?thesis
      proof
        assume a: "findNewLinePos_loop data (i - 1) (data ! nat i) = - 1 \<and>
                   (\<forall>j. int j \<le> i - 1 \<longrightarrow> \<not> crlfAt data j)"
        with step have "\<forall>j. int j \<le> i \<longrightarrow> \<not> crlfAt data j" by blast
        with a r show ?thesis by simp
      next
        assume a: "0 \<le> findNewLinePos_loop data (i - 1) (data ! nat i) \<and>
          findNewLinePos_loop data (i - 1) (data ! nat i) \<le> i - 1 \<and>
          crlfAt data (nat (findNewLinePos_loop data (i - 1) (data ! nat i))) \<and>
          (\<forall>j. findNewLinePos_loop data (i - 1) (data ! nat i) < int j \<and> int j \<le> i - 1
                \<longrightarrow> \<not> crlfAt data j)"
        with step have "\<forall>j. findNewLinePos_loop data (i - 1) (data ! nat i) < int j \<and> int j \<le> i
                \<longrightarrow> \<not> crlfAt data j" by blast
        with a r show ?thesis by simp
      qed
    qed
  qed
qed

lemma crlfAt_bound: "crlfAt data j \<Longrightarrow> int j \<le> int (length data) - 1"
  by (simp add: crlfAt_def)

lemma findNewLinePos_spec:
  "(findNewLinePos data = - 1 \<and> (\<forall>j. \<not> crlfAt data j)) \<or>
   (0 \<le> findNewLinePos data \<and> crlfAt data (nat (findNewLinePos data)) \<and>
    (\<forall>j. nat (findNewLinePos data) < j \<longrightarrow> \<not> crlfAt data j))"
proof -
  have "- 1 \<le> int (length data) - 1" "int (length data) - 1 < int (length data)"
    "NUL = (if nat (int (length data) - 1 + 1) < length data
            then data ! nat (int (length data) - 1 + 1) else NUL)"
    by simp_all
  from findNewLinePos_loop_spec [OF this]
  show ?thesis
    unfolding findNewLinePos_def [symmetric]
  proof
    assume a: "findNewLinePos data = - 1 \<and>
               (\<forall>j. int j \<le> int (length data) - 1 \<longrightarrow> \<not> crlfAt data j)"
    then have "\<forall>j. \<not> crlfAt data j" using crlfAt_bound by blast
    with a show ?thesis by simp
  next
    assume a: "0 \<le> findNewLinePos data \<and> findNewLinePos data \<le> int (length data) - 1 \<and>
       crlfAt data (nat (findNewLinePos data)) \<and>
       (\<forall>j. findNewLinePos data < int j \<and> int j \<le> int (length data) - 1 \<longrightarrow> \<not> crlfAt data j)"
    have "\<not> crlfAt data j" if "nat (findNewLinePos data) < j" for j
    proof
      assume c: "crlfAt data j"
      from that a have "findNewLinePos data < int j" by linarith
      with a crlfAt_bound [OF c] c show False by blast
    qed
    with a show ?thesis by blast
  qed
qed

lemma skipSB_stream_err: "skipSB_stream s = (Some e, t) \<Longrightarrow> e = ReadError"
  by (induction s arbitrary: e t rule: skipSB_stream.induct) (auto split: if_splits)

lemma skipCommand_stream_err: "skipCommand_stream s = (Some e, t) \<Longrightarrow> e = ReadError"
  by (auto simp: skipCommand_stream_def split: list.splits if_splits dest: skipSB_stream_err)

lemma ReadByte_stream_err: "ReadByte_stream s = (b, Some e, t) \<Longrightarrow> e = ReadError"
proof (induction s arbitrary: b e t rule: ReadByte_stream.induct)
  case 1
  then show ?case by simp
next
  case (2 x s)
  obtain e1 u where c: "skipCommand_stream s = (e1, u)" by (cases "skipCommand_stream s") auto
  show ?case
  proof (cases e1)
    case None
    with "2.prems" c have "x = IAC" "ReadByte_stream u = (b, Some e, t)"
      by (auto split: if_splits)
    from "2.IH" [OF _ c [symmetric] None this(2)] this(1) show ?thesis by simp
  next
    case (Some a)
    with "2.prems" c skipCommand_stream_err [of s a u] show ?thesis
      by (auto split: if_splits)
  qed
qed

lemma ReadByte_err: "ReadByte r = (b, Some e, r') \<Longrightarrow> e = ReadError"
  using ReadByte_flat [of r] ReadByte_stream_err [of "flat r" b e "flat r'"] by simp

lemma payload_ok: "ReadByte r = (b, None, r1) \<Longrightarrow> payload r = b # payload r1"
  by (simp add: payload.simps [of r])

lemma payload_err: "ReadByte r = (b, Some e, r1) \<Longrightarrow> payload r = []"
  by (simp add: payload.simps [of r])

lemma ReadUntil_loop_spec:
  "ReadUntil_loop b n data delim r = (n', e, data', r') \<Longrightarrow>
   \<exists>app. data' = data @ app \<and> n' = n + length app \<and>
     (b = delim \<longrightarrow> app = [] \<and> e = None \<and> r' = r) \<and>
     (b \<noteq> delim \<longrightarrow>
        (e = None \<longrightarrow> app \<noteq> [] \<and> last app = delim \<and> delim \<notin> set (butlast app) \<and>
                     payload r = app @ payload r') \<and>
        (e \<noteq> None \<longrightarrow> e = Some ReadError \<and> delim \<notin> set app \<and> app = payload r))"
proof (induction b n data delim r arbitrary: n' e data' r' rule: ReadUntil_loop.induct)
  case (1 b n data delim r)
  show ?case
  proof (cases "b = delim")
    case True
    then have "ReadUntil_loop b n data delim r = (n, None, data, r)"
      by (subst ReadUntil_loop.simps) simp
    with "1.prems" True show ?thesis by simp
  next
    case False
    obtain b1 e1 r1 where rb: "ReadByte r = (b1, e1, r1)" by (cases "ReadByte r") auto
    show ?thesis
    proof (cases e1)
      case (Some a)
      with rb False "1.prems" have "n' = n" "e = Some a" "data' = data" "r' = r1"
        by (simp_all add: ReadUntil_loop.simps [of b n data delim r])
      with False ReadByte_err [of r b1 a r1] payload_err [of r b1 a r1] rb Some
      show ?thesis by simp
    next
      case None
      with rb False "1.prems"
      have rec: "ReadUntil_loop b1 (n + 1) (data @ [b1]) delim r1 = (n', e, data', r')"
        by (simp add: ReadUntil_loop.simps [of b n data delim r])
      from "1.IH" [OF False rb [symmetric] refl None rec] obtain app where
        a: "data' = (data @ [b1]) @ app" "n' = n + 1 + length app"
        and eq: "b1 = delim \<longrightarrow> app = [] \<and> e = None \<and> r' = r1"
        and ne: "b1 \<noteq> delim \<longrightarrow>
          (e = None \<longrightarrow> app \<noteq> [] \<and> last app = delim \<and> delim \<notin> set (butlast app) \<and>
                       payload r1 = app @ payload r') \<and>
          (e \<noteq> None \<longrightarrow> e = Some ReadError \<and> delim \<notin> set app \<and> app = payload r1)"
        by blast
      note p = payload_ok [OF rb [unfolded None]]
      have "data' = data @ (b1 # app)" "n' = n + length (b1 # app)" using a by simp_all
      moreover have "(e = None \<longrightarrow> b1 # app \<noteq> [] \<and> last (b1 # app) = delim \<and>
            delim \<notin> set (butlast (b1 # app)) \<and> payload r = (b1 # app) @ payload r') \<and>
          (e \<noteq> None \<longrightarrow> e = Some ReadError \<and> delim \<notin> set (b1 # app) \<and> b1 # app = payload r)"
        using eq ne p by (cases "b1 = delim") auto
      ultimately show ?thesis using False by blast
    qed
  qed
qed

lemma takeWhile_last:
  "app \<noteq> [] \<Longrightarrow> last app = d \<Longrightarrow> d \<notin> set (butlast app) \<Longrightarrow>
   takeWhile (\<lambda>c. c \<noteq> d) (app @ rest) = butlast app \<and>
   dropWhile (\<lambda>c. c \<noteq> d) (app @ rest) = d # rest"
proof (induction app)
  case Nil
  then show ?case by simp
next
  case (Cons a app)
  then show ?case by (cases "app = []") auto
qed

lemma crlfAt_append: "crlfAt data j \<Longrightarrow> crlfAt (data @ app) j"
  by (auto simp: crlfAt_def nth_append)

lemma findNewLinePos_none: "findNewLinePos data = - 1 \<longleftrightarrow> (\<forall>j. \<not> crlfAt data j)"
  using findNewLinePos_spec [of data] by auto

lemma findNewLinePos_last:
  assumes "findNewLinePos data \<noteq> - 1"
  shows "0 \<le> findNewLinePos data \<and> crlfAt data (nat (findNewLinePos data)) \<and>
         (\<forall>j. nat (findNewLinePos data) < j \<longrightarrow> \<not> crlfAt data j)"
  using findNewLinePos_spec [of data] assms by auto

lemma lineStart_bounds: "0 \<le> lineStart data \<and> lineStart data \<le> int (length data)"
proof (cases "findNewLinePos data = - 1")
  case True
  then show ?thesis by (simp add: lineStart_def)
next
  case False
  from findNewLinePos_last [OF False] show ?thesis
    using False by (auto simp: lineStart_def crlfAt_def)
qed

lemma lineStart_mono: "lineStart data \<le> lineStart (data @ app)"
proof (cases "findNewLinePos data = - 1")
  case True
  with lineStart_bounds [of "data @ app"] show ?thesis by (simp add: lineStart_def)
next
  case False
  note l = findNewLinePos_last [OF False]
  then have c: "crlfAt (data @ app) (nat (findNewLinePos data))" by (simp add: crlfAt_append)
  then have n: "findNewLinePos (data @ app) \<noteq> - 1" by (auto simp: findNewLinePos_none)
  note l' = findNewLinePos_last [OF n]
  have "\<not> nat (findNewLinePos (data @ app)) < nat (findNewLinePos data)"
    using l' c by blast
  with l l' have "findNewLinePos data \<le> findNewLinePos (data @ app)" by linarith
  with False n show ?thesis by (simp add: lineStart_def)
qed

lemma ReadUntil_appends:
  assumes "ReadUntil data delim r = (n, e, data', r')"
  shows "\<exists>app. data' = data @ app \<and> n = length app \<and> (e \<noteq> None \<longrightarrow> e = Some ReadError)"
  using ReadUntil_loop_spec [OF assms [unfolded ReadUntil_def]]
  by (cases "NUL = delim") auto

text \<open>One pass from a state in which \<open>delimPos\<close> is the length of the output.\<close>

lemma scan_Inr:
  assumes "ReadUntilPrompt_scan d l out tc = Inr (d1, l1, out1, chunk, tc1)"
  shows "\<exists>n r1. ReadUntil out (Delimiter tc) (reader tc) = (n, None, out1, r1) \<and>
           tc1 = tc\<lparr>reader := r1\<rparr> \<and> d1 = d + int n \<and>
           l1 = (if findNewLinePos out1 \<noteq> - 1 then findNewLinePos out1 + 2 else l) \<and>
           0 \<le> l1 \<and> l1 \<le> d1 \<and> d1 \<le> int (length out1) \<and>
           chunk = take (nat (d1 - l1)) (drop (nat l1) out1)"
proof -
  obtain n e o1 r1 where ru: "ReadUntil out (Delimiter tc) (reader tc) = (n, e, o1, r1)"
    by (cases "ReadUntil out (Delimiter tc) (reader tc)") auto
  with assms show ?thesis
    by (cases e) (auto simp: ReadUntilPrompt_scan_def Let_def split: if_splits)
qed

lemma scan_Inl:
  assumes "ReadUntilPrompt_scan d l out tc = Inl (e, out1, tc1)"
    and "d = int (length out)" "l = lineStart out"
  shows "\<exists>n r1. ReadUntil out (Delimiter tc) (reader tc) = (n, Some ReadError, out1, r1) \<and>
           tc1 = tc\<lparr>reader := r1\<rparr> \<and> e = ReadError"
proof -
  obtain n e' o1 r1 where ru: "ReadUntil out (Delimiter tc) (reader tc) = (n, e', o1, r1)"
    by (cases "ReadUntil out (Delimiter tc) (reader tc)") auto
  from ReadUntil_appends [OF ru] obtain app where
    a: "o1 = out @ app" "n = length app" "e' \<noteq> None \<longrightarrow> e' = Some ReadError" by blast
  show ?thesis
  proof (cases e')
    case (Some x)
    with ru a assms(1) show ?thesis by (auto simp: ReadUntilPrompt_scan_def)
  next
    case None
    have d1: "d + int n = int (length o1)" using a assms(2) by simp
    have "0 \<le> (if findNewLinePos o1 \<noteq> - 1 then findNewLinePos o1 + 2 else l) \<and>
          (if findNewLinePos o1 \<noteq> - 1 then findNewLinePos o1 + 2 else l) \<le> int (length o1)"
    proof (cases "findNewLinePos o1 = - 1")
      case True
      with lineStart_bounds [of out] assms(3) a show ?thesis by simp
    next
      case False
      with lineStart_bounds [of o1] show ?thesis by (simp add: lineStart_def)
    qed
    with ru None d1 assms(1) show ?thesis
      by (simp add: ReadUntilPrompt_scan_def Let_def)
  qed
qed

lemma scan_inv:
  assumes "ReadUntilPrompt_scan d l out tc = Inr (d1, l1, out1, chunk, tc1)"
    and "d = int (length out)" "l = lineStart out"
  shows "d1 = int (length out1) \<and> l1 = lineStart out1 \<and> l \<le> l1 \<and> d \<le> d1 \<and>
         chunk = drop (nat l1) out1 \<and> (\<exists>app. out1 = out @ app)"
proof -
  from scan_Inr [OF assms(1)] obtain n r1 where
    ru: "ReadUntil out (Delimiter tc) (reader tc) = (n, None, out1, r1)"
    and s: "d1 = d + int n"
      "l1 = (if findNewLinePos out1 \<noteq> - 1 then findNewLinePos out1 + 2 else l)"
      "chunk = take (nat (d1 - l1)) (drop (nat l1) out1)" "0 \<le> l1" "l1 \<le> d1"
    by blast
  from ReadUntil_appends [OF ru] obtain app where a: "out1 = out @ app" "n = length app"
    by blast
  have d1: "d1 = int (length out1)" using s a assms(2) by simp
  have l1: "l1 = lineStart out1"
  proof (cases "findNewLinePos out1 = - 1")
    case True
    then have "\<forall>j. \<not> crlfAt out j" using a crlfAt_append by (auto simp: findNewLinePos_none)
    then have "findNewLinePos out = - 1" by (simp add: findNewLinePos_none)
    with True s assms(3) show ?thesis by (simp add: lineStart_def)
  next
    case False
    with s show ?thesis by (simp add: lineStart_def)
  qed
  have "chunk = drop (nat l1) out1" using s d1 by simp
  with d1 l1 a lineStart_mono [of out app] assms(2,3) s show ?thesis by auto
qed

lemma iter_loop:
  "ReadUntilPrompt_iter process k (d, l, out, tc) = Some (d', l', out', tc') \<Longrightarrow>
   ReadUntilPrompt_loop process d l out tc = ReadUntilPrompt_loop process d' l' out' tc'"
proof (induction k arbitrary: d l out tc)
  case 0
  then show ?case by simp
next
  case (Suc k)
  from Suc.prems obtain d1 l1 out1 chunk tc1 tc2 where
    s: "ReadUntilPrompt_scan d l out tc = Inr (d1, l1, out1, chunk, tc1)"
    and p: "process tc1 chunk = (False, tc2)"
    and r: "ReadUntilPrompt_iter process k (d1, l1, out1, tc2) = Some (d', l', out', tc')"
    by (auto split: sum.splits prod.splits if_splits)
  from Suc.IH [OF r] s p show ?case
    by (subst ReadUntilPrompt_loop.simps) simp
qed

lemma iter_inv:
  "ReadUntilPrompt_iter process k (d, l, out, tc) = Some (d', l', out', tc') \<Longrightarrow>
   d = int (length out) \<Longrightarrow> l = lineStart out \<Longrightarrow>
   d' = int (length out') \<and> l' = lineStart out'"
proof (induction k arbitrary: d l out tc)
  case 0
  then show ?case by auto
next
  case (Suc k)
  from Suc.prems(1) obtain d1 l1 out1 chunk tc1 tc2 where
    s: "ReadUntilPrompt_scan d l out tc = Inr (d1, l1, out1, chunk, tc1)"
    and r: "ReadUntilPrompt_iter process k (d1, l1, out1, tc2) = Some (d', l', out', tc')"
    by (auto split: sum.splits prod.splits if_splits)
  from scan_inv [OF s Suc.prems(2,3)] have "d1 = int (length out1)" "l1 = lineStart out1"
    by simp_all
  from Suc.IH [OF r this] show ?case .
qed

lemma iter_Suc:
  "ReadUntilPrompt_iter process k st0 = Some st \<Longrightarrow>
   ReadUntilPrompt_iter process (Suc k) st0 = ReadUntilPrompt_iter process (Suc 0) st"
proof (induction k arbitrary: st0)
  case 0
  then show ?case by simp
next
  case (Suc k)
  obtain d l out tc where st0: "st0 = (d, l, out, tc)" by (cases st0) auto
  from Suc.prems [unfolded st0] obtain d1 l1 out1 chunk tc1 tc2 where
    s: "ReadUntilPrompt_scan d l out tc = Inr (d1, l1, out1, chunk, tc1)"
    and p: "process tc1 chunk = (False, tc2)"
    and r: "ReadUntilPrompt_iter process k (d1, l1, out1, tc2) = Some st"
    by (auto split: sum.splits prod.splits if_splits)
  have "ReadUntilPrompt_iter process (Suc (Suc k)) (d, l, out, tc)
        = ReadUntilPrompt_iter process (Suc k) (d1, l1, out1, tc2)"
    using s p by (simp del: ReadUntilPrompt_iter.simps add: ReadUntilPrompt_iter.simps(2) [of process "Suc k"])
  with Suc.IH [OF r] st0 show ?case by simp
qed

lemma ReadUntil_payload:
  assumes "ReadUntil data delim r = (n, e, data', r')"
  shows "\<exists>app. data' = data @ app \<and>
           (e = None \<longrightarrow> payload r = app @ payload r' \<and>
              (delim \<noteq> NUL \<longrightarrow> app \<noteq> [] \<and> last app = delim \<and> delim \<notin> set (butlast app))) \<and>
           (e \<noteq> None \<longrightarrow> e = Some ReadError \<and> app = payload r)"
  using ReadUntil_loop_spec [OF assms [unfolded ReadUntil_def]]
  by (cases "NUL = delim") auto

lemma loop_payload:
  assumes "ReadUntilPrompt_loop process d l out tc = Some res"
    and "\<forall>t c. reader (snd (process t c)) = reader t"
    and "d = int (length out)" "l = lineStart out"
  shows "case res of (out', err, tc') \<Rightarrow>
           \<exists>app. out' = out @ app \<and>
             (err = None \<longrightarrow> payload (reader tc) = app @ payload (reader tc')) \<and>
             (err \<noteq> None \<longrightarrow> err = Some ReadError \<and> app = payload (reader tc))"
  using assms(2-)
proof (induction process d l out tc res rule: ReadUntilPrompt_loop.raw_induct)
  case (1 loop process d l out tc res)
  from "1.prems" have keep: "\<forall>t c. reader (snd (process t c)) = reader t"
    and inv: "d = int (length out)" "l = lineStart out" by simp_all
  show ?case
  proof (cases "ReadUntilPrompt_scan d l out tc")
    case (Inl x)
    obtain e out1 tc1 where x: "x = (e, out1, tc1)" by (cases x) auto
    with Inl "1.hyps" have res: "res = (out1, Some e, tc1)" by simp
    from scan_Inl [OF Inl [unfolded x] inv] obtain n r1 where
      ru: "ReadUntil out (Delimiter tc) (reader tc) = (n, Some ReadError, out1, r1)"
      and e: "e = ReadError" by blast
    from ReadUntil_payload [OF ru] e res show ?thesis by auto
  next
    case (Inr x)
    obtain d1 l1 out1 chunk tc1 where x: "x = (d1, l1, out1, chunk, tc1)" by (cases x) auto
    note s = Inr [unfolded x]
    from scan_Inr [OF s] obtain n r1 where
      ru: "ReadUntil out (Delimiter tc) (reader tc) = (n, None, out1, r1)"
      and tc1: "tc1 = tc\<lparr>reader := r1\<rparr>" by blast
    from ReadUntil_payload [OF ru] obtain app1 where
      a1: "out1 = out @ app1" "payload (reader tc) = app1 @ payload r1" by auto
    obtain stop tc2 where p: "process tc1 chunk = (stop, tc2)" by (cases "process tc1 chunk") auto
    with keep [rule_format, of tc1 chunk] tc1 have r2: "reader tc2 = r1" by simp
    show ?thesis
    proof (cases stop)
      case True
      with s p "1.hyps" have "res = (out1, None, tc2)" by simp
      with a1 r2 show ?thesis by simp
    next
      case False
      with s p "1.hyps" have run: "loop process d1 l1 out1 tc2 = Some res" by simp
      from scan_inv [OF s inv] have inv1: "d1 = int (length out1)" "l1 = lineStart out1"
        by simp_all
      obtain out' err tc' where res: "res = (out', err, tc')" by (cases res) auto
      from "1.IH" [OF run keep inv1] res obtain app2 where
        "out' = out1 @ app2"
        "err = None \<longrightarrow> payload (reader tc2) = app2 @ payload (reader tc')"
        "err \<noteq> None \<longrightarrow> err = Some ReadError \<and> app2 = payload (reader tc2)"
        by auto
      with a1 r2 res show ?thesis by (intro case_prodI2) auto
    qed
  qed
qed fact

lemma loop_terminates:
  assumes "\<forall>t c. reader (snd (process t c)) = reader t \<and>
                  Delimiter (snd (process t c)) = Delimiter t"
    and "Delimiter tc \<noteq> NUL"
  shows "\<exists>res. ReadUntilPrompt_loop process d l out tc = Some res"
  using assms(2)
proof (induction "length (payload (reader tc))" arbitrary: d l out tc rule: less_induct)
  case less
  show ?case
  proof (cases "ReadUntilPrompt_scan d l out tc")
    case (Inl x)
    then show ?thesis
      by (subst ReadUntilPrompt_loop.simps) (auto split: prod.splits)
  next
    case (Inr x)
    obtain d1 l1 out1 chunk tc1 where x: "x = (d1, l1, out1, chunk, tc1)" by (cases x) auto
    note s = Inr [unfolded x]
    from scan_Inr [OF s] obtain n r1 where
      ru: "ReadUntil out (Delimiter tc) (reader tc) = (n, None, out1, r1)"
      and tc1: "tc1 = tc\<lparr>reader := r1\<rparr>" by blast
    from ReadUntil_payload [OF ru] less.prems obtain app1 where
      a1: "payload (reader tc) = app1 @ payload r1" "app1 \<noteq> []" by auto
    obtain stop tc2 where p: "process tc1 chunk = (stop, tc2)" by (cases "process tc1 chunk") auto
    with assms(1) [rule_format, of tc1 chunk] tc1 less.prems
    have r2: "reader tc2 = r1" "Delimiter tc2 \<noteq> NUL" by simp_all
    show ?thesis
    proof (cases stop)
      case True
      with s p show ?thesis by (subst ReadUntilPrompt_loop.simps) simp
    next
      case False
      from a1 r2 have "length (payload (reader tc2)) < length (payload (reader tc))" by simp
      from less.hyps [OF this r2(2)] obtain res where
        "ReadUntilPrompt_loop process d1 l1 out1 tc2 = Some res" by blast
      moreover have "ReadUntilPrompt_loop process d l out tc =
                     ReadUntilPrompt_loop process d1 l1 out1 tc2"
        using s p False by (subst ReadUntilPrompt_loop.simps) simp
      ultimately show ?thesis by (intro exI [of _ res]) simp
    qed
  qed
qed

lemma loop_banner:
  assumes "ReadUntilPrompt_loop process d l out tc = Some res"
    and "process = bannerFound"
    and "d = int (length out)" "l = lineStart out" "Delimiter tc \<noteq> NUL"
  shows "case res of (out', err, tc') \<Rightarrow>
           tc' = tc\<lparr>reader := reader tc'\<rparr> \<and>
           (err = None \<longrightarrow>
             (\<exists>app. out' = out @ app \<and> app \<noteq> [] \<and> last app = Delimiter tc \<and>
                Find (BannerRe tc) (currentLine out') \<noteq> [] \<and>
                (\<forall>k. 0 < k \<and> k < length app \<and> app ! (k - 1) = Delimiter tc \<longrightarrow>
                     Find (BannerRe tc) (currentLine (out @ take k app)) = [])))"
  using assms(2-)
proof (induction process d l out tc res rule: ReadUntilPrompt_loop.raw_induct)
  case (1 loop process d l out tc res)
  from "1.prems" have pr: "process = bannerFound"
    and inv: "d = int (length out)" "l = lineStart out"
    and dl: "Delimiter tc \<noteq> NUL" by simp_all
  show ?case
  proof (cases "ReadUntilPrompt_scan d l out tc")
    case (Inl x)
    obtain e out1 tc1 where x: "x = (e, out1, tc1)" by (cases x) auto
    with Inl "1.hyps" have res: "res = (out1, Some e, tc1)" by simp
    from scan_Inl [OF Inl [unfolded x] inv] res show ?thesis by auto
  next
    case (Inr x)
    obtain d1 l1 out1 chunk tc1 where x: "x = (d1, l1, out1, chunk, tc1)" by (cases x) auto
    note s = Inr [unfolded x]
    from scan_Inr [OF s] obtain n r1 where
      ru: "ReadUntil out (Delimiter tc) (reader tc) = (n, None, out1, r1)"
      and tc1: "tc1 = tc\<lparr>reader := r1\<rparr>" by blast
    from ReadUntil_payload [OF ru] dl obtain app1 where
      a1: "out1 = out @ app1" "app1 \<noteq> []" "last app1 = Delimiter tc"
        "Delimiter tc \<notin> set (butlast app1)" by auto
    note si = scan_inv [OF s inv]
    then have ch: "chunk = currentLine out1" by (simp add: currentLine_def)
    have early: "False" if "0 < k" "k < length app1" "app1 ! (k - 1) = Delimiter tc" for k
    proof -
      from that have lt: "k - 1 < length (butlast app1)" by simp
      then have "butlast app1 ! (k - 1) \<in> set (butlast app1)" by (rule nth_mem)
      moreover have "butlast app1 ! (k - 1) = app1 ! (k - 1)"
        using lt by (simp add: nth_butlast)
      ultimately have "Delimiter tc \<in> set (butlast app1)" using that(3) by simp
      with a1(4) show False by simp
    qed
    define stop where "stop = (Find (BannerRe tc) chunk \<noteq> [])"
    have p: "process tc1 chunk = (stop, tc1)"
      using pr tc1 by (simp add: bannerFound_def stop_def)
    show ?thesis
    proof (cases stop)
      case True
      with s p "1.hyps" have res: "res = (out1, None, tc1)" by simp
      have "Find (BannerRe tc) (currentLine out1) \<noteq> []" using True ch by (simp add: stop_def)
      with a1 early res tc1 show ?thesis by auto
    next
      case False
      with s p "1.hyps" have run: "loop process d1 l1 out1 tc1 = Some res" by simp
      from si have inv1: "d1 = int (length out1)" "l1 = lineStart out1" by simp_all
      have dl1: "Delimiter tc1 \<noteq> NUL" using tc1 dl by simp
      have ih: "case res of (out', err, tc') \<Rightarrow>
           tc' = tc1\<lparr>reader := reader tc'\<rparr> \<and>
           (err = None \<longrightarrow>
             (\<exists>app. out' = out1 @ app \<and> app \<noteq> [] \<and> last app = Delimiter tc1 \<and>
                Find (BannerRe tc1) (currentLine out') \<noteq> [] \<and>
                (\<forall>k. 0 < k \<and> k < length app \<and> app ! (k - 1) = Delimiter tc1 \<longrightarrow>
                     Find (BannerRe tc1) (currentLine (out1 @ take k app)) = [])))"
        by (rule "1.IH" [OF run pr inv1 dl1])
      obtain out' err tc' where res: "res = (out', err, tc')" by (cases res) auto
      have nf: "Find (BannerRe tc) (currentLine out1) = []" using False ch by (simp add: stop_def)
      from ih res tc1 have t: "tc' = tc\<lparr>reader := reader tc'\<rparr>" by simp
      have "\<exists>app. out' = out @ app \<and> app \<noteq> [] \<and> last app = Delimiter tc \<and>
                Find (BannerRe tc) (currentLine out') \<noteq> [] \<and>
                (\<forall>k. 0 < k \<and> k < length app \<and> app ! (k - 1) = Delimiter tc \<longrightarrow>
                     Find (BannerRe tc) (currentLine (out @ take k app)) = [])"
        if "err = None"
      proof -
        from ih res that tc1 obtain app2 where
          a2: "out' = out1 @ app2" "app2 \<noteq> []" "last app2 = Delimiter tc"
            "Find (BannerRe tc) (currentLine out') \<noteq> []"
          and m2: "\<forall>k. 0 < k \<and> k < length app2 \<and> app2 ! (k - 1) = Delimiter tc \<longrightarrow>
                     Find (BannerRe tc) (currentLine (out1 @ take k app2)) = []"
          by auto
        have "Find (BannerRe tc) (currentLine (out @ take k (app1 @ app2))) = []"
          if k: "0 < k" "k < length (app1 @ app2)" "(app1 @ app2) ! (k - 1) = Delimiter tc" for k
        proof -
          consider "k < length app1" | "k = length app1" | "length app1 < k" by linarith
          then show ?thesis
          proof cases
            case 1
            then have "k - 1 < length app1" by simp
            with k have "app1 ! (k - 1) = Delimiter tc" by (simp add: nth_append)
            with early [OF k(1) 1] show ?thesis by simp
          next
            case 2
            with nf a1 show ?thesis by simp
          next
            case 3
            then have n1: "\<not> k - 1 < length app1" by simp
            have e1: "k - 1 - length app1 = k - length app1 - 1" by simp
            have "0 < k - length app1" "k - length app1 < length app2"
              using 3 k by simp_all
            moreover have "app2 ! (k - length app1 - 1) = Delimiter tc"
              using k(3) n1 e1 by (simp add: nth_append)
            ultimately have "0 < k - length app1" "k - length app1 < length app2"
              "app2 ! (k - length app1 - 1) = Delimiter tc" by simp_all
            with m2 have "Find (BannerRe tc) (currentLine (out1 @ take (k - length app1) app2)) = []"
              by blast
            with 3 a1 show ?thesis by simp
          qed
        qed
        with a1 a2 show ?thesis
          by (intro exI [of _ "app1 @ app2"]) simp
      qed
      with res t show ?thesis by simp
    qed
  qed
qed fact

lemma ReadUntil_no_delim:
  assumes "ReadUntil data delim r = (n, Some e, data', r')" "delim \<noteq> NUL"
  shows "delim \<notin> set (payload r)"
  using ReadUntil_loop_spec [OF assms(1) [unfolded ReadUntil_def]] assms(2)
  by (cases "NUL = delim") auto

lemma loop_banner_err:
  assumes "ReadUntilPrompt_loop process d l out tc = Some res"
    and "process = bannerFound"
    and "d = int (length out)" "l = lineStart out" "Delimiter tc \<noteq> NUL"
  shows "case res of (out', err, tc') \<Rightarrow>
           (err \<noteq> None \<longrightarrow>
             (\<forall>k. 0 < k \<and> k \<le> length (payload (reader tc)) \<and>
                  payload (reader tc) ! (k - 1) = Delimiter tc \<longrightarrow>
                  Find (BannerRe tc) (currentLine (out @ take k (payload (reader tc)))) = []))"
  using assms(2-)
proof (induction process d l out tc res rule: ReadUntilPrompt_loop.raw_induct)
  case (1 loop process d l out tc res)
  from "1.prems" have pr: "process = bannerFound"
    and inv: "d = int (length out)" "l = lineStart out"
    and dl: "Delimiter tc \<noteq> NUL" by simp_all
  show ?case
  proof (cases "ReadUntilPrompt_scan d l out tc")
    case (Inl x)
    obtain e out1 tc1 where x: "x = (e, out1, tc1)" by (cases x) auto
    from scan_Inl [OF Inl [unfolded x] inv] obtain n r1 where
      ru: "ReadUntil out (Delimiter tc) (reader tc) = (n, Some ReadError, out1, r1)" by blast
    note nd = ReadUntil_no_delim [OF ru dl]
    have "False"
      if "0 < k" "k \<le> length (payload (reader tc))"
        "payload (reader tc) ! (k - 1) = Delimiter tc" for k
    proof -
      from that have "k - 1 < length (payload (reader tc))" by simp
      then have "payload (reader tc) ! (k - 1) \<in> set (payload (reader tc))" by (rule nth_mem)
      with that(3) nd show False by simp
    qed
    then show ?thesis by (cases res) auto
  next
    case (Inr x)
    obtain d1 l1 out1 chunk tc1 where x: "x = (d1, l1, out1, chunk, tc1)" by (cases x) auto
    note s = Inr [unfolded x]
    from scan_Inr [OF s] obtain n r1 where
      ru: "ReadUntil out (Delimiter tc) (reader tc) = (n, None, out1, r1)"
      and tc1: "tc1 = tc\<lparr>reader := r1\<rparr>" by blast
    from ReadUntil_payload [OF ru] dl obtain app1 where
      a1: "out1 = out @ app1" "app1 \<noteq> []" "last app1 = Delimiter tc"
        "Delimiter tc \<notin> set (butlast app1)"
      and py: "payload (reader tc) = app1 @ payload r1" by auto
    note si = scan_inv [OF s inv]
    then have ch: "chunk = currentLine out1" by (simp add: currentLine_def)
    have early: "False" if "0 < k" "k < length app1" "app1 ! (k - 1) = Delimiter tc" for k
    proof -
      from that have lt: "k - 1 < length (butlast app1)" by simp
      then have "butlast app1 ! (k - 1) \<in> set (butlast app1)" by (rule nth_mem)
      moreover have "butlast app1 ! (k - 1) = app1 ! (k - 1)"
        using lt by (simp add: nth_butlast)
      ultimately have "Delimiter tc \<in> set (butlast app1)" using that(3) by simp
      with a1(4) show False by simp
    qed
    define stop where "stop = (Find (BannerRe tc) chunk \<noteq> [])"
    have p: "process tc1 chunk = (stop, tc1)"
      using pr tc1 by (simp add: bannerFound_def stop_def)
    show ?thesis
    proof (cases stop)
      case True
      with s p "1.hyps" have res: "res = (out1, None, tc1)" by simp
      then show ?thesis by simp
    next
      case False
      with s p "1.hyps" have run: "loop process d1 l1 out1 tc1 = Some res" by simp
      from si have inv1: "d1 = int (length out1)" "l1 = lineStart out1" by simp_all
      have dl1: "Delimiter tc1 \<noteq> NUL" using tc1 dl by simp
      have ih: "case res of (out', err, tc') \<Rightarrow>
           (err \<noteq> None \<longrightarrow>
             (\<forall>k. 0 < k \<and> k \<le> length (payload (reader tc1)) \<and>
                  payload (reader tc1) ! (k - 1) = Delimiter tc1 \<longrightarrow>
                  Find (BannerRe tc1) (currentLine (out1 @ take k (payload (reader tc1)))) = []))"
        by (rule "1.IH" [OF run pr inv1 dl1])
      obtain out' err tc' where res: "res = (out', err, tc')" by (cases res) auto
      have nf: "Find (BannerRe tc) (currentLine out1) = []" using False ch by (simp add: stop_def)
      have "Find (BannerRe tc) (currentLine (out @ take k (payload (reader tc)))) = []"
        if en: "err \<noteq> None"
          and k: "0 < k" "k \<le> length (payload (reader tc))"
            "payload (reader tc) ! (k - 1) = Delimiter tc" for k
      proof -
        from ih res en tc1 have
          m2: "\<forall>k. 0 < k \<and> k \<le> length (payload r1) \<and> payload r1 ! (k - 1) = Delimiter tc \<longrightarrow>
                     Find (BannerRe tc) (currentLine (out1 @ take k (payload r1))) = []"
          by simp
        consider "k < length app1" | "k = length app1" | "length app1 < k" by linarith
        then show ?thesis
        proof cases
          case 1
          then have "k - 1 < length app1" by simp
          with k py have "app1 ! (k - 1) = Delimiter tc" by (simp add: nth_append)
          with early [OF k(1) 1] show ?thesis by simp
        next
          case 2
          with nf a1 py show ?thesis by simp
        next
          case 3
          then have n1: "\<not> k - 1 < length app1" by simp
          have e1: "k - 1 - length app1 = k - length app1 - 1" by simp
          have "0 < k - length app1" "k - length app1 \<le> length (payload r1)"
            using 3 k py by simp_all
          moreover have "payload r1 ! (k - length app1 - 1) = Delimiter tc"
            using k(3) n1 e1 py by (simp add: nth_append)
          ultimately have "0 < k - length app1 \<and> k - length app1 \<le> length (payload r1) \<and>
            payload r1 ! (k - length app1 - 1) = Delimiter tc" by simp
          with m2 have "Find (BannerRe tc) (currentLine (out1 @ take (k - length app1) (payload r1))) = []"
            by blast
          with 3 a1 py show ?thesis by simp
        qed
      qed
      with res show ?thesis by simp
    qed
  qed
qed fact

section \<open>Lemmas on the writer\<close>

lemma connRoom_full:
  "\<forall>m. wr_limit tc = Some m \<longrightarrow> length (sent tc) + n \<le> m \<Longrightarrow> connRoom tc n = n"
  by (cases "wr_limit tc") (auto simp: connRoom_def)

lemma connRoom_le: "connRoom tc n \<le> n"
  by (cases "wr_limit tc") (auto simp: connRoom_def)

lemma connRoom_reader [simp]: "connRoom (tc\<lparr>reader := r\<rparr>) n = connRoom tc n"
  by (cases "wr_limit tc") (simp_all add: connRoom_def)

lemma Write_ok:
  assumes "wr_err tc = None" "connRoom tc (length data) = length data"
  shows "Write tc data = (length data, None, tc\<lparr>sent := sent tc @ data\<rparr>)"
  using assms by (simp add: Write_def wrWrite_def wrFlush_def connWrite_def Let_def)

lemma Write_refused:
  assumes "wr_err tc = Some e"
  shows "Write tc data = (0, Some e, tc)"
  using assms by (simp add: Write_def wrWrite_def)

lemma Write_failed:
  assumes "wr_err tc = None" "connRoom tc (length data) < length data"
  shows "Write tc data =
           (if length data \<le> defaultBufSize then length data else connRoom tc (length data),
            Some WriteError,
            tc\<lparr>sent := sent tc @ take (connRoom tc (length data)) data,
               wr_err := Some WriteError\<rparr>)"
  using assms by (auto simp: Write_def wrWrite_def wrFlush_def connWrite_def Let_def)

lemma Write_frame:
  "reader (snd (snd (Write tc data))) = reader tc \<and>
   BannerRe (snd (snd (Write tc data))) = BannerRe tc \<and>
   Delimiter (snd (snd (Write tc data))) = Delimiter tc"
proof (cases "wr_err tc")
  case None
  show ?thesis
  proof (cases "connRoom tc (length data) < length data")
    case True
    from Write_failed [OF None True] show ?thesis by simp
  next
    case False
    with connRoom_le [of tc "length data"] have "connRoom tc (length data) = length data"
      by simp
    from Write_ok [OF None this] show ?thesis by simp
  qed
next
  case (Some e)
  from Write_refused [OF Some] show ?thesis by simp
qed

section \<open>Properties\<close>

lemma ReadByte_stream_not_IAC:
  "ReadByte_stream s = (b, None, t) \<Longrightarrow> b \<noteq> IAC"
  by (induction s arbitrary: b t rule: ReadByte_stream.induct)
     (auto split: if_splits prod.splits option.splits)

text \<open>
  C10: whenever \<^verbatim>\<open>ReadByte\<close> returns with a nil error, the byte it returns is not the escape
  marker 255; in particular the sequence IAC IAC never delivers a 255 to the caller.
\<close>

theorem ReadByte_never_IAC:
  assumes "ReadByte r = (b, None, r')"
  shows "b \<noteq> IAC"
proof -
  from ReadByte_flat [of r] assms have "ReadByte_stream (flat r) = (b, None, flat r')"
    by simp
  then show ?thesis by (rule ReadByte_stream_not_IAC)
qed

theorem ReadByte_never_IAC_witness:
  "ReadByte \<lparr>buf = [IAC, IAC, CHR ''a''], src = [[CHR ''b'']]\<rparr>
     = (CHR ''a'', None, \<lparr>buf = [], src = [[CHR ''b'']]\<rparr>) \<and> CHR ''a'' \<noteq> IAC"
proof -
  have e: "ReadByte \<lparr>buf = [IAC, IAC, CHR ''a''], src = [[CHR ''b'']]\<rparr>
     = (CHR ''a'', None, \<lparr>buf = [], src = [[CHR ''b'']]\<rparr>)"
    by code_simp
  from ReadByte_never_IAC [OF e] e show ?thesis by simp
qed

lemma rdDiscard_buffered:
  "rdDiscard (rdBuffered r) r = (length (buf r), None, r\<lparr>buf := []\<rparr>)"
  by (simp add: rdDiscard.simps [of "length (buf r)" r] rdBuffered_def)

text \<open>
  C8: \<^verbatim>\<open>Execute\<close> first discards the bytes that are buffered in the reader and not read yet
  (what the connection has not delivered stays), then writes exactly
  \<open>name @ '' '' @ Join args '' '' @ [CR, LF]\<close> to the stream, then returns what
  \<^verbatim>\<open>ReadUntilBanner\<close> returns. It calls \<^verbatim>\<open>Write\<close> with exactly these bytes on the client whose
  reader has lost its buffered bytes and goes on with \<^verbatim>\<open>ReadUntilBanner\<close> whatever \<^verbatim>\<open>Write\<close>
  returns. When the writer holds no error and the connection takes the request, exactly
  the request is appended to what has been sent. When the connection fails in this write,
  only the bytes it has taken are sent and the writer keeps the error; a writer that holds
  an error already sends nothing.
\<close>

theorem Execute_discards_writes_reads:
  "Execute tc name args =
     (case Write (tc\<lparr>reader := (reader tc)\<lparr>buf := []\<rparr>\<rparr>)
                 (name @ '' '' @ Join args '' '' @ [CR, LF]) of
        (_, _, tc2) \<Rightarrow> ReadUntilBanner tc2) \<and>
   (wr_err tc = None \<and>
    (\<forall>m. wr_limit tc = Some m \<longrightarrow>
          length (sent tc) + length (name @ '' '' @ Join args '' '' @ [CR, LF]) \<le> m) \<longrightarrow>
      Execute tc name args =
        ReadUntilBanner
          (tc\<lparr>reader := (reader tc)\<lparr>buf := []\<rparr>,
              sent := sent tc @ name @ '' '' @ Join args '' '' @ [CR, LF]\<rparr>)) \<and>
   (wr_err tc = None \<and>
    connRoom tc (length (name @ '' '' @ Join args '' '' @ [CR, LF]))
      < length (name @ '' '' @ Join args '' '' @ [CR, LF]) \<longrightarrow>
      Execute tc name args =
        ReadUntilBanner
          (tc\<lparr>reader := (reader tc)\<lparr>buf := []\<rparr>,
              sent := sent tc @
                take (connRoom tc (length (name @ '' '' @ Join args '' '' @ [CR, LF])))
                     (name @ '' '' @ Join args '' '' @ [CR, LF]),
              wr_err := Some WriteError\<rparr>)) \<and>
   (wr_err tc \<noteq> None \<longrightarrow>
      Execute tc name args = ReadUntilBanner (tc\<lparr>reader := (reader tc)\<lparr>buf := []\<rparr>\<rparr>))"
proof -
  define tc1 where "tc1 = tc\<lparr>reader := (reader tc)\<lparr>buf := []\<rparr>\<rparr>"
  define req where "req = name @ '' '' @ Join args '' '' @ [CR, LF]"
  have e: "Execute tc name args = (case Write tc1 req of (_, _, tc2) \<Rightarrow> ReadUntilBanner tc2)"
    by (simp add: Execute_def rdDiscard_buffered tc1_def req_def)
  have ok: "Execute tc name args = ReadUntilBanner (tc1\<lparr>sent := sent tc @ req\<rparr>)"
    if "wr_err tc = None" "\<forall>m. wr_limit tc = Some m \<longrightarrow> length (sent tc) + length req \<le> m"
  proof -
    from that(2) have "connRoom tc1 (length req) = length req"
      by (intro connRoom_full) (simp add: tc1_def)
    moreover from that(1) have "wr_err tc1 = None" by (simp add: tc1_def)
    ultimately have "Write tc1 req = (length req, None, tc1\<lparr>sent := sent tc1 @ req\<rparr>)"
      by (intro Write_ok)
    with e show ?thesis by (simp add: tc1_def)
  qed
  have failed: "Execute tc name args =
      ReadUntilBanner (tc1\<lparr>sent := sent tc @ take (connRoom tc (length req)) req,
                           wr_err := Some WriteError\<rparr>)"
    if "wr_err tc = None" "connRoom tc (length req) < length req"
  proof -
    from that have "wr_err tc1 = None" "connRoom tc1 (length req) < length req"
      by (simp_all add: tc1_def)
    from Write_failed [OF this] e show ?thesis by (simp add: tc1_def)
  qed
  have refused: "Execute tc name args = ReadUntilBanner tc1" if "wr_err tc \<noteq> None"
  proof -
    from that obtain x where "wr_err tc1 = Some x" by (auto simp: tc1_def)
    from Write_refused [OF this] e show ?thesis by simp
  qed
  from e ok failed refused show ?thesis
    unfolding tc1_def req_def by simp
qed

theorem Execute_discards_writes_reads_witness:
  "wr_err (defaultClient ''stale $ '' [''out user@host:~$ '']) = None \<and>
   wr_limit (defaultClient ''stale $ '' [''out user@host:~$ '']) = None \<and>
   map_option (\<lambda>(out, err, tc'). (out, err, sent tc', wr_err tc', flat (reader tc')))
     (Execute (defaultClient ''stale $ '' [''out user@host:~$ '']) ''ls'' [''-l'', ''-a''])
   = Some (''out'', None, ''ls -l -a'' @ [CR, LF], None, []) \<and>
   wr_err ((defaultClient ''stale $ '' [''out user@host:~$ ''])\<lparr>wr_limit := Some 4\<rparr>) = None \<and>
   connRoom ((defaultClient ''stale $ '' [''out user@host:~$ ''])\<lparr>wr_limit := Some 4\<rparr>)
            (length (''ls'' @ '' '' @ Join [''-l'', ''-a''] '' '' @ [CR, LF])) = 4 \<and>
   (4 :: nat) < length (''ls'' @ '' '' @ Join [''-l'', ''-a''] '' '' @ [CR, LF]) \<and>
   map_option (\<lambda>(out, err, tc'). (out, err, sent tc', wr_err tc', flat (reader tc')))
     (Execute ((defaultClient ''stale $ '' [''out user@host:~$ ''])\<lparr>wr_limit := Some 4\<rparr>)
        ''ls'' [''-l'', ''-a''])
   = Some (''out'', None, ''ls -'', Some WriteError, []) \<and>
   wr_err ((defaultClient ''stale $ '' [''out user@host:~$ ''])\<lparr>wr_err := Some WriteError\<rparr>) \<noteq> None \<and>
   map_option (\<lambda>(out, err, tc'). (out, err, sent tc', wr_err tc', flat (reader tc')))
     (Execute ((defaultClient ''stale $ '' [''out user@host:~$ ''])\<lparr>wr_err := Some WriteError\<rparr>)
        ''ls'' [''-l'', ''-a''])
   = Some (''out'', None, [], Some WriteError, [])"
proof -
  define c where "c = defaultClient ''stale $ '' [''out user@host:~$ '']"
  have w: "wr_err c = None" "wr_limit c = None"
    "wr_err (c\<lparr>wr_limit := Some 4\<rparr>) = None" "wr_err (c\<lparr>wr_err := Some WriteError\<rparr>) \<noteq> None"
    by (simp_all add: c_def defaultClient_def)
  have r: "connRoom (c\<lparr>wr_limit := Some 4\<rparr>)
             (length (''ls'' @ '' '' @ Join [''-l'', ''-a''] '' '' @ [CR, LF])) = 4"
    "(4 :: nat) < length (''ls'' @ '' '' @ Join [''-l'', ''-a''] '' '' @ [CR, LF])"
    by (simp_all add: c_def defaultClient_def connRoom_def)
  have 1: "map_option (\<lambda>(out, err, tc'). (out, err, sent tc', wr_err tc', flat (reader tc')))
     (ReadUntilBanner
       ((defaultClient ''stale $ '' [''out user@host:~$ ''])
          \<lparr>reader := (reader (defaultClient ''stale $ '' [''out user@host:~$ '']))\<lparr>buf := []\<rparr>,
           sent := sent (defaultClient ''stale $ '' [''out user@host:~$ '']) @ ''ls'' @ '' ''
                     @ Join [''-l'', ''-a''] '' '' @ [CR, LF]\<rparr>))
   = Some (''out'', None, ''ls -l -a'' @ [CR, LF], None, [])"
    by code_simp
  have 2: "map_option (\<lambda>(out, err, tc'). (out, err, sent tc', wr_err tc', flat (reader tc')))
     (ReadUntilBanner
       ((defaultClient ''stale $ '' [''out user@host:~$ ''])
          \<lparr>wr_limit := Some 4,
           reader := (reader (defaultClient ''stale $ '' [''out user@host:~$ '']))\<lparr>buf := []\<rparr>,
           sent := sent (defaultClient ''stale $ '' [''out user@host:~$ '']) @
                   take 4 (''ls'' @ '' '' @ Join [''-l'', ''-a''] '' '' @ [CR, LF]),
           wr_err := Some WriteError\<rparr>))
   = Some (''out'', None, ''ls -'', Some WriteError, [])"
    by code_simp
  have 3: "map_option (\<lambda>(out, err, tc'). (out, err, sent tc', wr_err tc', flat (reader tc')))
     (ReadUntilBanner
       ((defaultClient ''stale $ '' [''out user@host:~$ ''])
          \<lparr>wr_err := Some WriteError,
           reader := (reader (defaultClient ''stale $ '' [''out user@host:~$ '']))\<lparr>buf := []\<rparr>\<rparr>))
   = Some (''out'', None, [], Some WriteError, [])"
    by code_simp
  note t = Execute_discards_writes_reads [THEN conjunct2]
  have h1: "wr_err c = None \<and>
    (\<forall>m. wr_limit c = Some m \<longrightarrow>
          length (sent c) + length (''ls'' @ '' '' @ Join [''-l'', ''-a''] '' '' @ [CR, LF]) \<le> m)"
    using w by simp
  have h2: "wr_err (c\<lparr>wr_limit := Some 4\<rparr>) = None \<and>
    connRoom (c\<lparr>wr_limit := Some 4\<rparr>)
       (length (''ls'' @ '' '' @ Join [''-l'', ''-a''] '' '' @ [CR, LF]))
      < length (''ls'' @ '' '' @ Join [''-l'', ''-a''] '' '' @ [CR, LF])"
    using w r by simp
  from t [THEN conjunct1, THEN mp, OF h1]
  have e1: "Execute c ''ls'' [''-l'', ''-a''] =
        ReadUntilBanner
          (c\<lparr>reader := (reader c)\<lparr>buf := []\<rparr>,
             sent := sent c @ ''ls'' @ '' '' @ Join [''-l'', ''-a''] '' '' @ [CR, LF]\<rparr>)" .
  from t [THEN conjunct2, THEN conjunct1, THEN mp, OF h2] r(1)
  have e2: "Execute (c\<lparr>wr_limit := Some 4\<rparr>) ''ls'' [''-l'', ''-a''] =
        ReadUntilBanner
          (c\<lparr>wr_limit := Some 4, reader := (reader c)\<lparr>buf := []\<rparr>,
             sent := sent c @ take 4 (''ls'' @ '' '' @ Join [''-l'', ''-a''] '' '' @ [CR, LF]),
             wr_err := Some WriteError\<rparr>)"
    by simp
  from t [THEN conjunct2, THEN conjunct2, THEN mp, OF w(4)]
  have e3: "Execute (c\<lparr>wr_err := Some WriteError\<rparr>) ''ls'' [''-l'', ''-a''] =
        ReadUntilBanner (c\<lparr>wr_err := Some WriteError, reader := (reader c)\<lparr>buf := []\<rparr>\<rparr>)"
    by simp
  from w r 1 2 3 e1 e2 e3 show ?thesis unfolding c_def by simp
qed

text \<open>
  C7: the decoder delivers the payload bytes unchanged and in order and removes control
  sequences in full. For payload \<open>p\<close> without escape marker: a stream that is \<open>p\<close> is delivered
  as it is; after \<open>p\<close>, an escape marker with WILL, WONT, DO or DONT and one option byte is
  consumed entirely, and so is a subnegotiation block from the escape marker and SB up to
  and including the first IAC SE after it, whatever the length of its contents \<open>inner\<close>
  (0 or more): the decoder goes on with what follows.
\<close>

theorem decoder_removes_control_sequences:
  assumes "IAC \<notin> set p"
  shows "(flat r = p \<longrightarrow> payload r = p) \<and>
         (flat r = p @ IAC # c # opt # flat r2 \<and> (c = WILL \<or> c = WONT \<or> c = DO \<or> c = DONT)
            \<longrightarrow> payload r = p @ payload r2) \<and>
         (flat r = p @ IAC # SB # inner @ IAC # SE # flat r2 \<and>
          (\<forall>j. Suc j < length inner \<longrightarrow> \<not> (inner ! j = IAC \<and> inner ! Suc j = SE))
            \<longrightarrow> payload r = p @ payload r2)"
proof (intro conjI impI)
  assume "flat r = p"
  with assms payload_stream_append [of p "[]"] show "payload r = p"
    by (simp add: payload_flat payload_stream_Nil)
next
  assume a: "flat r = p @ IAC # c # opt # flat r2 \<and> (c = WILL \<or> c = WONT \<or> c = DO \<or> c = DONT)"
  then have "skipCommand_stream (c # opt # flat r2) = (None, flat r2)"
    by (auto simp: skipCommand_stream_def)
  from payload_stream_skip [OF this] a assms show "payload r = p @ payload r2"
    by (simp add: payload_flat payload_stream_append)
next
  assume a: "flat r = p @ IAC # SB # inner @ IAC # SE # flat r2 \<and>
    (\<forall>j. Suc j < length inner \<longrightarrow> \<not> (inner ! j = IAC \<and> inner ! Suc j = SE))"
  then have "skipSB_stream (SB # inner @ IAC # SE # flat r2) = (None, flat r2)"
    by (intro skipSB_stream_found) simp
  then have "skipCommand_stream (SB # inner @ IAC # SE # flat r2) = (None, flat r2)"
    by (simp add: skipCommand_stream_def)
  from payload_stream_skip [OF this] a assms show "payload r = p @ payload r2"
    by (simp add: payload_flat payload_stream_append)
qed

theorem decoder_removes_control_sequences_witness:
  "IAC \<notin> set ''ab'' \<and>
   payload \<lparr>buf = ''ab'', src = []\<rparr> = ''ab'' \<and>
   payload \<lparr>buf = ''ab'' @ [IAC, DO, CHR 0x01], src = [''cd'']\<rparr> = ''abcd'' \<and>
   payload \<lparr>buf = ''ab'' @ [IAC, SB], src = [[IAC, SE] @ ''cd'']\<rparr> = ''abcd'' \<and>
   payload \<lparr>buf = ''ab'' @ [IAC, SB, CHR 0x18, CHR 0x01, IAC], src = [[SE] @ ''cd'']\<rparr> = ''abcd''"
proof -
  have p: "IAC \<notin> set ''ab''" by simp
  have cd: "payload \<lparr>buf = ''cd'', src = []\<rparr> = ''cd''" by code_simp
  have f0: "flat \<lparr>buf = ''ab'', src = []\<rparr> = ''ab''" by (simp add: flat_def)
  have f1: "flat \<lparr>buf = ''ab'' @ [IAC, DO, CHR 0x01], src = [''cd'']\<rparr>
            = ''ab'' @ IAC # DO # CHR 0x01 # flat \<lparr>buf = ''cd'', src = []\<rparr>"
    by (simp add: flat_def)
  have f2: "flat \<lparr>buf = ''ab'' @ [IAC, SB], src = [[IAC, SE] @ ''cd'']\<rparr>
            = ''ab'' @ IAC # SB # [] @ IAC # SE # flat \<lparr>buf = ''cd'', src = []\<rparr>"
    by (simp add: flat_def)
  have f3: "flat \<lparr>buf = ''ab'' @ [IAC, SB, CHR 0x18, CHR 0x01, IAC], src = [[SE] @ ''cd'']\<rparr>
            = ''ab'' @ IAC # SB # [CHR 0x18, CHR 0x01] @ IAC # SE # flat \<lparr>buf = ''cd'', src = []\<rparr>"
    by (simp add: flat_def)
  have n: "\<forall>j. Suc j < length [CHR 0x18, CHR 0x01] \<longrightarrow>
             \<not> ([CHR 0x18, CHR 0x01] ! j = IAC \<and> [CHR 0x18, CHR 0x01] ! Suc j = SE)"
    by (simp add: less_Suc_eq)
  note t = decoder_removes_control_sequences [OF p]
  from t [of "\<lparr>buf = ''ab'', src = []\<rparr>"] f0
  have 0: "payload \<lparr>buf = ''ab'', src = []\<rparr> = ''ab''" by blast
  from t [of "\<lparr>buf = ''ab'' @ [IAC, DO, CHR 0x01], src = [''cd'']\<rparr>" DO "CHR 0x01"
             "\<lparr>buf = ''cd'', src = []\<rparr>"] f1 cd
  have 1: "payload \<lparr>buf = ''ab'' @ [IAC, DO, CHR 0x01], src = [''cd'']\<rparr> = ''abcd''" by simp
  from t [of "\<lparr>buf = ''ab'' @ [IAC, SB], src = [[IAC, SE] @ ''cd'']\<rparr>" _ _
             "\<lparr>buf = ''cd'', src = []\<rparr>" "[]"] f2 cd
  have 2: "payload \<lparr>buf = ''ab'' @ [IAC, SB], src = [[IAC, SE] @ ''cd'']\<rparr> = ''abcd''" by simp
  from t [of "\<lparr>buf = ''ab'' @ [IAC, SB, CHR 0x18, CHR 0x01, IAC], src = [[SE] @ ''cd'']\<rparr>" _ _
             "\<lparr>buf = ''cd'', src = []\<rparr>" "[CHR 0x18, CHR 0x01]"] f3 cd n
  have 3: "payload \<lparr>buf = ''ab'' @ [IAC, SB, CHR 0x18, CHR 0x01, IAC], src = [[SE] @ ''cd'']\<rparr>
           = ''abcd''" by simp
  from p 0 1 2 3 show ?thesis by blast
qed




text \<open>
  C6, as stated, fails: on a fragment that matches the login pattern and the password
  pattern, the predicate of \<^verbatim>\<open>waitWelcomeSigns\<close> writes the login response only.
\<close>

theorem welcomeSign_both_counterexample:
  "Find (LoginRe (defaultClient [] [])) ''host login: Password:'' \<noteq> [] \<and>
   Find (PasswordRe (defaultClient [] [])) ''host login: Password:'' \<noteq> [] \<and>
   (case welcomeSign (defaultClient [] []) ''host login: Password:'' of
      (stop, tc') \<Rightarrow> (stop, sent tc')) = (False, ''admin'' @ [CR, LF]) \<and>
   ''admin'' @ [CR, LF] \<noteq> ''admin'' @ [CR, LF] @ ''secret'' @ [CR, LF]"
  by code_simp

text \<open>
  C6, amended: on a fragment that matches the login pattern, whether it matches the
  password pattern or not, the predicate acts once: its one call of \<^verbatim>\<open>Write\<close> is for the
  login response and \<^verbatim>\<open>\r\n\<close>, and it returns false. On a fragment that does not match the
  login pattern and matches the password pattern its one call of \<^verbatim>\<open>Write\<close> is for the
  password response and \<^verbatim>\<open>\r\n\<close>, and it returns false. On a fragment that matches neither
  it writes nothing and returns whether the banner pattern matches. So the password
  response is written only for a fragment that does not match the login pattern and
  matches the password pattern. When the writer holds no error and the connection takes
  the response, the response and \<^verbatim>\<open>\r\n\<close> are what is appended to the bytes sent.
\<close>

theorem welcomeSign_acts_once:
  "(Find (LoginRe tc) data \<noteq> [] \<longrightarrow>
      welcomeSign tc data = (False, snd (snd (Write tc (Login tc @ [CR, LF]))))) \<and>
   (Find (LoginRe tc) data = [] \<and> Find (PasswordRe tc) data \<noteq> [] \<longrightarrow>
      welcomeSign tc data = (False, snd (snd (Write tc (Password tc @ [CR, LF]))))) \<and>
   (Find (LoginRe tc) data = [] \<and> Find (PasswordRe tc) data = [] \<longrightarrow>
      welcomeSign tc data = (Find (BannerRe tc) data \<noteq> [], tc)) \<and>
   (Find (LoginRe tc) data \<noteq> [] \<and> wr_err tc = None \<and>
    (\<forall>m. wr_limit tc = Some m \<longrightarrow> length (sent tc) + length (Login tc @ [CR, LF]) \<le> m) \<longrightarrow>
      welcomeSign tc data = (False, tc\<lparr>sent := sent tc @ Login tc @ [CR, LF]\<rparr>)) \<and>
   (Find (LoginRe tc) data = [] \<and> Find (PasswordRe tc) data \<noteq> [] \<and> wr_err tc = None \<and>
    (\<forall>m. wr_limit tc = Some m \<longrightarrow> length (sent tc) + length (Password tc @ [CR, LF]) \<le> m) \<longrightarrow>
      welcomeSign tc data = (False, tc\<lparr>sent := sent tc @ Password tc @ [CR, LF]\<rparr>))"
proof -
  have l: "welcomeSign tc data = (False, snd (snd (Write tc (Login tc @ [CR, LF]))))"
    if "Find (LoginRe tc) data \<noteq> []"
    using that by (simp add: welcomeSign_def findInputPrompt_def split: prod.splits)
  have p: "welcomeSign tc data = (False, snd (snd (Write tc (Password tc @ [CR, LF]))))"
    if "Find (LoginRe tc) data = []" "Find (PasswordRe tc) data \<noteq> []"
    using that by (simp add: welcomeSign_def findInputPrompt_def split: prod.splits)
  have b: "welcomeSign tc data = (Find (BannerRe tc) data \<noteq> [], tc)"
    if "Find (LoginRe tc) data = []" "Find (PasswordRe tc) data = []"
    using that by (simp add: welcomeSign_def findInputPrompt_def)
  have w: "snd (snd (Write tc resp)) = tc\<lparr>sent := sent tc @ resp\<rparr>"
    if "wr_err tc = None" "\<forall>m. wr_limit tc = Some m \<longrightarrow> length (sent tc) + length resp \<le> m"
    for resp
    using Write_ok [OF that(1) connRoom_full [OF that(2)]] by simp
  from l p b w [of "Login tc @ [CR, LF]"] w [of "Password tc @ [CR, LF]"]
  show ?thesis by simp
qed

theorem welcomeSign_acts_once_witness:
  "wr_err (defaultClient [] []) = None \<and> wr_limit (defaultClient [] []) = None \<and>
   Find (LoginRe (defaultClient [] [])) ''host login: Password:'' \<noteq> [] \<and>
   welcomeSign (defaultClient [] []) ''host login: Password:''
     = (False, (defaultClient [] [])\<lparr>sent := ''admin'' @ [CR, LF]\<rparr>) \<and>
   Find (LoginRe (defaultClient [] [])) ''Password: '' = [] \<and>
   Find (PasswordRe (defaultClient [] [])) ''Password: '' \<noteq> [] \<and>
   welcomeSign (defaultClient [] []) ''Password: ''
     = (False, (defaultClient [] [])\<lparr>sent := ''secret'' @ [CR, LF]\<rparr>) \<and>
   Find (LoginRe (defaultClient [] [])) ''admin@host:~$ '' = [] \<and>
   Find (PasswordRe (defaultClient [] [])) ''admin@host:~$ '' = [] \<and>
   Find (BannerRe (defaultClient [] [])) ''admin@host:~$ '' \<noteq> [] \<and>
   welcomeSign (defaultClient [] []) ''admin@host:~$ '' = (True, defaultClient [] []) \<and>
   Find (LoginRe (defaultClient [] [])) ''Last login '' = [] \<and>
   Find (PasswordRe (defaultClient [] [])) ''Last login '' = [] \<and>
   Find (BannerRe (defaultClient [] [])) ''Last login '' = [] \<and>
   welcomeSign (defaultClient [] []) ''Last login '' = (False, defaultClient [] []) \<and>
   Find (LoginRe ((defaultClient [] [])\<lparr>wr_limit := Some 2\<rparr>)) ''host login: '' \<noteq> [] \<and>
   Write ((defaultClient [] [])\<lparr>wr_limit := Some 2\<rparr>) (''admin'' @ [CR, LF])
     = (7, Some WriteError,
        (defaultClient [] [])\<lparr>wr_limit := Some 2, sent := ''ad'', wr_err := Some WriteError\<rparr>) \<and>
   welcomeSign ((defaultClient [] [])\<lparr>wr_limit := Some 2\<rparr>) ''host login: ''
     = (False,
        (defaultClient [] [])\<lparr>wr_limit := Some 2, sent := ''ad'', wr_err := Some WriteError\<rparr>)"
proof -
  have w: "wr_err (defaultClient [] []) = None" "wr_limit (defaultClient [] []) = None"
    by (simp_all add: defaultClient_def)
  have f: "Find (LoginRe (defaultClient [] [])) ''host login: Password:'' \<noteq> []"
    by code_simp
  have g: "Find (LoginRe (defaultClient [] [])) ''Password: '' = []"
    "Find (PasswordRe (defaultClient [] [])) ''Password: '' \<noteq> []"
    by code_simp+
  have h: "Find (LoginRe (defaultClient [] [])) ''admin@host:~$ '' = []"
    "Find (PasswordRe (defaultClient [] [])) ''admin@host:~$ '' = []"
    "Find (BannerRe (defaultClient [] [])) ''admin@host:~$ '' \<noteq> []"
    by code_simp+
  have i: "Find (LoginRe (defaultClient [] [])) ''Last login '' = []"
    "Find (PasswordRe (defaultClient [] [])) ''Last login '' = []"
    "Find (BannerRe (defaultClient [] [])) ''Last login '' = []"
    by code_simp+
  have j: "Find (LoginRe ((defaultClient [] [])\<lparr>wr_limit := Some 2\<rparr>)) ''host login: '' \<noteq> []"
    by code_simp
  have k: "Write ((defaultClient [] [])\<lparr>wr_limit := Some 2\<rparr>) (''admin'' @ [CR, LF])
     = (7, Some WriteError,
        (defaultClient [] [])\<lparr>wr_limit := Some 2, sent := ''ad'', wr_err := Some WriteError\<rparr>)"
    by code_simp
  have l: "Login ((defaultClient [] [])\<lparr>wr_limit := Some 2\<rparr>) = ''admin''"
    by (simp add: defaultClient_def)
  have wl: "\<forall>m. wr_limit (defaultClient [] []) = Some m \<longrightarrow>
      length (sent (defaultClient [] [])) + length (Login (defaultClient [] []) @ [CR, LF]) \<le> m"
    and wp: "\<forall>m. wr_limit (defaultClient [] []) = Some m \<longrightarrow>
      length (sent (defaultClient [] [])) + length (Password (defaultClient [] []) @ [CR, LF]) \<le> m"
    using w by simp_all
  have v: "(defaultClient [] [])\<lparr>sent := sent (defaultClient [] []) @ Login (defaultClient [] []) @ [CR, LF]\<rparr>
      = (defaultClient [] [])\<lparr>sent := ''admin'' @ [CR, LF]\<rparr>"
    "(defaultClient [] [])\<lparr>sent := sent (defaultClient [] []) @ Password (defaultClient [] []) @ [CR, LF]\<rparr>
      = (defaultClient [] [])\<lparr>sent := ''secret'' @ [CR, LF]\<rparr>"
    by (simp_all add: defaultClient_def)
  note t = welcomeSign_acts_once [THEN conjunct2, THEN conjunct2]
  from t [THEN conjunct2, THEN conjunct1, THEN mp, OF conjI [OF f conjI [OF w(1) wl]]] v
  have 1: "welcomeSign (defaultClient [] []) ''host login: Password:''
     = (False, (defaultClient [] [])\<lparr>sent := ''admin'' @ [CR, LF]\<rparr>)"
    by simp
  from t [THEN conjunct2, THEN conjunct2, THEN mp,
          OF conjI [OF g(1) conjI [OF g(2) conjI [OF w(1) wp]]]] v
  have 2: "welcomeSign (defaultClient [] []) ''Password: ''
     = (False, (defaultClient [] [])\<lparr>sent := ''secret'' @ [CR, LF]\<rparr>)"
    by simp
  from t [THEN conjunct1, THEN mp, OF conjI [OF h(1) h(2)]] h(3)
  have 3: "welcomeSign (defaultClient [] []) ''admin@host:~$ '' = (True, defaultClient [] [])"
    by simp
  from t [THEN conjunct1, THEN mp, OF conjI [OF i(1) i(2)]] i(3)
  have 4: "welcomeSign (defaultClient [] []) ''Last login '' = (False, defaultClient [] [])"
    by simp
  from welcomeSign_acts_once [THEN conjunct1, THEN mp, OF j] k l
  have 5: "welcomeSign ((defaultClient [] [])\<lparr>wr_limit := Some 2\<rparr>) ''host login: ''
     = (False,
        (defaultClient [] [])\<lparr>wr_limit := Some 2, sent := ''ad'', wr_err := Some WriteError\<rparr>)"
    by simp
  from w f g h i j k 1 2 3 4 5 show ?thesis by blast
qed

text \<open>
  C5, as stated, fails: when the first byte read is the delimiter, \<^verbatim>\<open>ReadUntil\<close> appends it
  and returns 1, not zero with no byte appended.
\<close>

theorem ReadUntil_counterexample:
  "ReadUntil [] (CHR '' '') \<lparr>buf = '' ab'', src = []\<rparr>
     = (1, None, '' '', \<lparr>buf = ''ab'', src = []\<rparr>) \<and> (1 :: nat) \<noteq> 0 \<and> '' '' \<noteq> []"
  by code_simp

text \<open>
  C5, amended: with a delimiter other than the zero byte, \<^verbatim>\<open>ReadUntil\<close> appends the payload
  bytes of \<^verbatim>\<open>ReadByte\<close> up to and including the first one equal to the delimiter and returns
  their number with a nil error (so 1 when the first payload byte is the delimiter); when
  no payload byte equals the delimiter it appends them all and returns their number with
  the read error. It returns zero with nothing appended and nothing read when the
  delimiter is the zero byte, the start value of the loop variable.
\<close>

theorem ReadUntil_spec:
  assumes "ReadUntil data delim r = (n, err, data', r')"
  shows "(delim = NUL \<longrightarrow> n = 0 \<and> err = None \<and> data' = data \<and> r' = r) \<and>
         (delim \<noteq> NUL \<and> delim \<in> set (payload r) \<longrightarrow>
            data' = data @ takeWhile (\<lambda>c. c \<noteq> delim) (payload r) @ [delim] \<and>
            n = length (takeWhile (\<lambda>c. c \<noteq> delim) (payload r)) + 1 \<and>
            err = None \<and>
            payload r = takeWhile (\<lambda>c. c \<noteq> delim) (payload r) @ [delim] @ payload r') \<and>
         (delim \<noteq> NUL \<and> delim \<notin> set (payload r) \<longrightarrow>
            data' = data @ payload r \<and> n = length (payload r) \<and> err = Some ReadError)"
proof -
  from ReadUntil_loop_spec [OF assms [unfolded ReadUntil_def]] obtain app where
    a: "data' = data @ app" "n = length app"
    and eq: "NUL = delim \<longrightarrow> app = [] \<and> err = None \<and> r' = r"
    and ne: "NUL \<noteq> delim \<longrightarrow>
      (err = None \<longrightarrow> app \<noteq> [] \<and> last app = delim \<and> delim \<notin> set (butlast app) \<and>
                   payload r = app @ payload r') \<and>
      (err \<noteq> None \<longrightarrow> err = Some ReadError \<and> delim \<notin> set app \<and> app = payload r)"
    by auto
  show ?thesis
  proof (cases "delim = NUL")
    case True
    with a eq show ?thesis by auto
  next
    case False
    show ?thesis
    proof (cases err)
      case None
      with ne False have l: "app \<noteq> []" "last app = delim" "delim \<notin> set (butlast app)"
        and p: "payload r = app @ payload r'" by auto
      from takeWhile_last [OF l, of "payload r'"] p
      have t: "takeWhile (\<lambda>c. c \<noteq> delim) (payload r) = butlast app" by simp
      from l have ab: "app = butlast app @ [delim]" by (metis append_butlast_last_id)
      then have "delim \<in> set app" by (metis in_set_conv_decomp)
      with p have "delim \<in> set (payload r)" by simp
      moreover have "data' = data @ takeWhile (\<lambda>c. c \<noteq> delim) (payload r) @ [delim]"
        using a t ab by simp
      moreover have "n = length (takeWhile (\<lambda>c. c \<noteq> delim) (payload r)) + 1"
        using a t l by (simp add: Suc_leI)
      moreover have "payload r = takeWhile (\<lambda>c. c \<noteq> delim) (payload r) @ [delim] @ payload r'"
        using p t ab by (metis append.assoc)
      ultimately show ?thesis using False None by simp
    next
      case (Some x)
      with ne False a show ?thesis by auto
    qed
  qed
qed

theorem ReadUntil_spec_witness:
  "ReadUntil ''x'' (CHR '' '') \<lparr>buf = ''ab'' @ [IAC, DO, CHR 0x01], src = [''c d'']\<rparr>
     = (4, None, ''xabc '', \<lparr>buf = ''d'', src = []\<rparr>) \<and>
   CHR '' '' \<noteq> NUL \<and>
   CHR '' '' \<in> set (payload \<lparr>buf = ''ab'' @ [IAC, DO, CHR 0x01], src = [''c d'']\<rparr>) \<and>
   ''xabc '' = ''x'' @ takeWhile (\<lambda>c. c \<noteq> CHR '' '')
                       (payload \<lparr>buf = ''ab'' @ [IAC, DO, CHR 0x01], src = [''c d'']\<rparr>) @ '' '' \<and>
   (4 :: nat) = length (takeWhile (\<lambda>c. c \<noteq> CHR '' '')
                       (payload \<lparr>buf = ''ab'' @ [IAC, DO, CHR 0x01], src = [''c d'']\<rparr>)) + 1 \<and>
   ReadUntil ''x'' (CHR '' '') \<lparr>buf = '' ab'', src = []\<rparr>
     = (1, None, ''x '', \<lparr>buf = ''ab'', src = []\<rparr>) \<and>
   ReadUntil ''x'' NUL \<lparr>buf = ''ab'', src = []\<rparr> = (0, None, ''x'', \<lparr>buf = ''ab'', src = []\<rparr>) \<and>
   CHR '' '' \<notin> set (payload \<lparr>buf = ''ab'', src = []\<rparr>) \<and>
   ReadUntil ''x'' (CHR '' '') \<lparr>buf = ''ab'', src = []\<rparr>
     = (2, Some ReadError, ''xab'', \<lparr>buf = [], src = []\<rparr>) \<and>
   ''xab'' = ''x'' @ payload \<lparr>buf = ''ab'', src = []\<rparr>"
proof -
  have e1: "ReadUntil ''x'' (CHR '' '') \<lparr>buf = ''ab'' @ [IAC, DO, CHR 0x01], src = [''c d'']\<rparr>
     = (4, None, ''xabc '', \<lparr>buf = ''d'', src = []\<rparr>)"
    by code_simp
  have p1: "payload \<lparr>buf = ''ab'' @ [IAC, DO, CHR 0x01], src = [''c d'']\<rparr> = ''abc d''"
    by code_simp
  have e2: "ReadUntil ''x'' (CHR '' '') \<lparr>buf = '' ab'', src = []\<rparr>
     = (1, None, ''x '', \<lparr>buf = ''ab'', src = []\<rparr>)"
    by code_simp
  have e3: "ReadUntil ''x'' NUL \<lparr>buf = ''ab'', src = []\<rparr>
     = (0, None, ''x'', \<lparr>buf = ''ab'', src = []\<rparr>)"
    by code_simp
  have e4: "ReadUntil ''x'' (CHR '' '') \<lparr>buf = ''ab'', src = []\<rparr>
     = (2, Some ReadError, ''xab'', \<lparr>buf = [], src = []\<rparr>)"
    by code_simp
  have p4: "payload \<lparr>buf = ''ab'', src = []\<rparr> = ''ab''" by code_simp
  from ReadUntil_spec [OF e1] ReadUntil_spec [OF e2] ReadUntil_spec [OF e3] ReadUntil_spec [OF e4]
    e1 e2 e3 e4 p1 p4
  show ?thesis by simp
qed

text \<open>
  C1, as stated, fails: in the buffer \<^verbatim>\<open>abc\n\rdef\<close> (line feed, then carriage return)
  \<^verbatim>\<open>findNewLinePos\<close> finds nothing, the line-start offset stays 0 and the fragment handed to
  the stopping predicate is the whole buffer, not \<^verbatim>\<open>def\<close>.
\<close>

theorem scan_line_start_counterexample:
  "findNewLinePos (''abc'' @ [LF, CR] @ ''def'') = - 1 \<and>
   (case ReadUntilPrompt_scan 0 0 []
           ((defaultClient [] [''abc'' @ [LF, CR] @ ''def''])\<lparr>Delimiter := CHR ''f''\<rparr>) of
      Inr (d, l, out, chunk, tc') \<Rightarrow> Some (l, out, chunk)
    | Inl _ \<Rightarrow> None)
     = Some (0, ''abc'' @ [LF, CR] @ ''def'', ''abc'' @ [LF, CR] @ ''def'') \<and>
   ''abc'' @ [LF, CR] @ ''def'' \<noteq> ''def''"
  by code_simp

text \<open>
  C1, amended: on each fragment \<^verbatim>\<open>ReadUntilPrompt\<close> computes the line-start offset anew from
  the whole buffer: when the buffer holds the two bytes carriage return, line feed (in
  this order, at \<open>i\<close> and \<open>i + 1\<close>), the offset becomes \<open>i + 2\<close> for the last such \<open>i\<close>;
  otherwise it keeps its value (0 at the start of the loop). The fragment handed to the
  stopping predicate is the buffer from that offset to the end offset: for the buffer
  \<^verbatim>\<open>abc\r\ndef\<close> followed by a space it is \<^verbatim>\<open>def\<close> and the space.
\<close>

theorem scan_line_start:
  assumes "ReadUntilPrompt_scan delimPos linePos output tc
             = Inr (delimPos1, linePos1, output1, chunk, tc1)"
  shows "((\<exists>i. crlfAt output1 i \<and> (\<forall>j. i < j \<longrightarrow> \<not> crlfAt output1 j) \<and> linePos1 = int i + 2) \<or>
          ((\<forall>j. \<not> crlfAt output1 j) \<and> linePos1 = linePos)) \<and>
         chunk = take (nat (delimPos1 - linePos1)) (drop (nat linePos1) output1) \<and>
         ReadUntilPrompt process tc = ReadUntilPrompt_loop process 0 0 [] tc"
proof -
  from scan_Inr [OF assms] have
    l: "linePos1 = (if findNewLinePos output1 \<noteq> - 1 then findNewLinePos output1 + 2 else linePos)"
    and c: "chunk = take (nat (delimPos1 - linePos1)) (drop (nat linePos1) output1)"
    by auto
  have "(\<exists>i. crlfAt output1 i \<and> (\<forall>j. i < j \<longrightarrow> \<not> crlfAt output1 j) \<and> linePos1 = int i + 2) \<or>
        ((\<forall>j. \<not> crlfAt output1 j) \<and> linePos1 = linePos)"
  proof (cases "findNewLinePos output1 = - 1")
    case True
    with l show ?thesis by (simp add: findNewLinePos_none)
  next
    case False
    from findNewLinePos_last [OF False] l False
    have "crlfAt output1 (nat (findNewLinePos output1)) \<and>
          (\<forall>j. nat (findNewLinePos output1) < j \<longrightarrow> \<not> crlfAt output1 j) \<and>
          linePos1 = int (nat (findNewLinePos output1)) + 2"
      by simp
    then show ?thesis by blast
  qed
  with c show ?thesis by (simp add: ReadUntilPrompt_def)
qed

theorem scan_line_start_witness:
  "(case ReadUntilPrompt_scan 0 0 [] (defaultClient [] [''abc'' @ [CR, LF] @ ''def '']) of
      Inr (d, l, out, chunk, tc') \<Rightarrow> Some (d, l, out, chunk)
    | Inl _ \<Rightarrow> None)
     = Some (9, 5, ''abc'' @ [CR, LF] @ ''def '', ''def '') \<and>
   (\<exists>i. crlfAt (''abc'' @ [CR, LF] @ ''def '') i \<and>
        (\<forall>j. i < j \<longrightarrow> \<not> crlfAt (''abc'' @ [CR, LF] @ ''def '') j) \<and> (5 :: int) = int i + 2)"
proof -
  have e: "(case ReadUntilPrompt_scan 0 0 [] (defaultClient [] [''abc'' @ [CR, LF] @ ''def '']) of
      Inr (d, l, out, chunk, tc') \<Rightarrow> Some (d, l, out, chunk)
    | Inl _ \<Rightarrow> None)
     = Some (9, 5, ''abc'' @ [CR, LF] @ ''def '', ''def '')"
    by code_simp
  then obtain tc' where s: "ReadUntilPrompt_scan 0 0 [] (defaultClient [] [''abc'' @ [CR, LF] @ ''def ''])
     = Inr (9, 5, ''abc'' @ [CR, LF] @ ''def '', ''def '', tc')"
    by (auto split: sum.splits)
  have c: "crlfAt (''abc'' @ [CR, LF] @ ''def '') 3" by (simp add: crlfAt_def)
  from scan_line_start [OF s] c e show ?thesis by auto
qed

text \<open>
  C9: whenever the loop of \<^verbatim>\<open>ReadUntilPrompt\<close> starts a pass, and after the pass has appended
  its fragment, \<open>0 \<le> linePos \<le> delimPos \<le> length output\<close> holds; neither offset decreases
  in a pass; the stopping predicate is applied to \<^verbatim>\<open>output[linePos:delimPos]\<close>, taken with the
  offsets and the output as they are after the pass has appended its fragment: the loop
  returns that output when the predicate says stop, and otherwise goes on from these
  offsets and this output; and that slice expression never panics: a pass that ends the
  loop with an error ends it with the read error and the output so far.
\<close>

theorem scan_cursor_invariant:
  assumes "ReadUntilPrompt_iter process k (0, 0, [], tc0) = Some (d, l, out, tc)"
  shows "0 \<le> l \<and> l \<le> d \<and> d \<le> int (length out) \<and>
         ReadUntilPrompt process tc0 = ReadUntilPrompt_loop process d l out tc \<and>
         (\<forall>d1 l1 out1 chunk tc1.
            ReadUntilPrompt_scan d l out tc = Inr (d1, l1, out1, chunk, tc1) \<longrightarrow>
              0 \<le> l1 \<and> l1 \<le> d1 \<and> d1 \<le> int (length out1) \<and> l \<le> l1 \<and> d \<le> d1 \<and>
              chunk = take (nat (d1 - l1)) (drop (nat l1) out1) \<and>
              ReadUntilPrompt_loop process d l out tc =
                (case process tc1 (take (nat (d1 - l1)) (drop (nat l1) out1)) of
                   (stop, tc2) \<Rightarrow>
                     if stop then Some (out1, None, tc2)
                     else ReadUntilPrompt_loop process d1 l1 out1 tc2) \<and>
              ReadUntilPrompt_iter process (Suc k) (0, 0, [], tc0) =
                (case process tc1 (take (nat (d1 - l1)) (drop (nat l1) out1)) of
                   (stop, tc2) \<Rightarrow>
                     if stop then None else Some (d1, l1, out1, tc2))) \<and>
         (\<forall>e out1 tc1.
            ReadUntilPrompt_scan d l out tc = Inl (e, out1, tc1) \<longrightarrow>
              e \<noteq> SliceBounds \<and>
              ReadUntilPrompt_loop process d l out tc = Some (out1, Some e, tc1) \<and>
              ReadUntilPrompt_iter process (Suc k) (0, 0, [], tc0) = None)"
proof -
  have "(0::int) = int (length ([] :: bytes))" "(0::int) = lineStart []"
    by (simp_all add: lineStart_def findNewLinePos_def findNewLinePos_loop.simps)
  from iter_inv [OF assms this] have inv: "d = int (length out)" "l = lineStart out"
    by simp_all
  with lineStart_bounds [of out] have 1: "0 \<le> l \<and> l \<le> d \<and> d \<le> int (length out)" by simp
  have 2: "ReadUntilPrompt process tc0 = ReadUntilPrompt_loop process d l out tc"
    using iter_loop [OF assms] by (simp add: ReadUntilPrompt_def)
  note nx = iter_Suc [OF assms]
  have 3: "0 \<le> l1 \<and> l1 \<le> d1 \<and> d1 \<le> int (length out1) \<and> l \<le> l1 \<and> d \<le> d1 \<and>
           chunk = take (nat (d1 - l1)) (drop (nat l1) out1) \<and>
           ReadUntilPrompt_loop process d l out tc =
             (case process tc1 (take (nat (d1 - l1)) (drop (nat l1) out1)) of
                (stop, tc2) \<Rightarrow>
                  if stop then Some (out1, None, tc2)
                  else ReadUntilPrompt_loop process d1 l1 out1 tc2) \<and>
           ReadUntilPrompt_iter process (Suc k) (0, 0, [], tc0) =
             (case process tc1 (take (nat (d1 - l1)) (drop (nat l1) out1)) of
                (stop, tc2) \<Rightarrow>
                  if stop then None else Some (d1, l1, out1, tc2))"
    if s: "ReadUntilPrompt_scan d l out tc = Inr (d1, l1, out1, chunk, tc1)"
    for d1 l1 out1 chunk tc1
  proof -
    from scan_inv [OF s inv] scan_Inr [OF s]
    have a: "0 \<le> l1 \<and> l1 \<le> d1 \<and> d1 \<le> int (length out1) \<and> l \<le> l1 \<and> d \<le> d1"
      and c: "chunk = take (nat (d1 - l1)) (drop (nat l1) out1)"
      by auto
    have b: "ReadUntilPrompt_loop process d l out tc =
             (case process tc1 chunk of
                (stop, tc2) \<Rightarrow>
                  if stop then Some (out1, None, tc2)
                  else ReadUntilPrompt_loop process d1 l1 out1 tc2)"
      using s by (subst ReadUntilPrompt_loop.simps) simp
    have e: "ReadUntilPrompt_iter process (Suc 0) (d, l, out, tc) =
             (case process tc1 chunk of
                (stop, tc2) \<Rightarrow>
                  if stop then None else Some (d1, l1, out1, tc2))"
      using s by (simp split: prod.splits)
    from a b e nx show ?thesis unfolding c [symmetric] by simp
  qed
  have 4: "e \<noteq> SliceBounds \<and>
           ReadUntilPrompt_loop process d l out tc = Some (out1, Some e, tc1) \<and>
           ReadUntilPrompt_iter process (Suc k) (0, 0, [], tc0) = None"
    if s: "ReadUntilPrompt_scan d l out tc = Inl (e, out1, tc1)" for e out1 tc1
  proof -
    from scan_Inl [OF s inv] have "e \<noteq> SliceBounds" by auto
    moreover have "ReadUntilPrompt_loop process d l out tc = Some (out1, Some e, tc1)"
      using s by (subst ReadUntilPrompt_loop.simps) simp
    moreover have "ReadUntilPrompt_iter process (Suc 0) (d, l, out, tc) = None"
      using s by simp
    ultimately show ?thesis using nx by simp
  qed
  from 1 2 3 4 show ?thesis by blast
qed

theorem scan_cursor_invariant_witness:
  "ReadUntilPrompt_iter bannerFound 2
     (0, 0, [], defaultClient [] [''ab'' @ [CR, LF] @ ''cd ef gh ''])
     = Some (10, 4, ''ab'' @ [CR, LF] @ ''cd ef '', defaultClient ''gh '' []) \<and>
   (0 :: int) \<le> 4 \<and> (4 :: int) \<le> 10 \<and> (10 :: int) \<le> int (length (''ab'' @ [CR, LF] @ ''cd ef '')) \<and>
   ReadUntilPrompt_scan 10 4 (''ab'' @ [CR, LF] @ ''cd ef '') (defaultClient ''gh '' [])
     = Inr (13, 4, ''ab'' @ [CR, LF] @ ''cd ef gh '', ''cd ef gh '', defaultClient [] []) \<and>
   (4 :: int) \<le> 13 \<and> (13 :: int) \<le> int (length (''ab'' @ [CR, LF] @ ''cd ef gh '')) \<and>
   ''cd ef gh '' = take (nat (13 - 4)) (drop (nat 4) (''ab'' @ [CR, LF] @ ''cd ef gh '')) \<and>
   bannerFound (defaultClient [] []) ''cd ef gh '' = (False, defaultClient [] []) \<and>
   ReadUntilPrompt_loop bannerFound 10 4 (''ab'' @ [CR, LF] @ ''cd ef '') (defaultClient ''gh '' [])
     = ReadUntilPrompt_loop bannerFound 13 4 (''ab'' @ [CR, LF] @ ''cd ef gh '') (defaultClient [] []) \<and>
   ReadUntilPrompt_iter bannerFound 3
     (0, 0, [], defaultClient [] [''ab'' @ [CR, LF] @ ''cd ef gh ''])
     = Some (13, 4, ''ab'' @ [CR, LF] @ ''cd ef gh '', defaultClient [] []) \<and>
   ReadUntilPrompt_scan 13 4 (''ab'' @ [CR, LF] @ ''cd ef gh '') (defaultClient [] [])
     = Inl (ReadError, ''ab'' @ [CR, LF] @ ''cd ef gh '', defaultClient [] []) \<and>
   ReadError \<noteq> SliceBounds \<and>
   ReadUntilPrompt bannerFound (defaultClient [] [''ab'' @ [CR, LF] @ ''cd ef gh ''])
     = Some (''ab'' @ [CR, LF] @ ''cd ef gh '', Some ReadError, defaultClient [] [])"
proof -
  have s: "ReadUntilPrompt_iter bannerFound 2
     (0, 0, [], defaultClient [] [''ab'' @ [CR, LF] @ ''cd ef gh ''])
     = Some (10, 4, ''ab'' @ [CR, LF] @ ''cd ef '', defaultClient ''gh '' [])"
    by code_simp
  have n: "ReadUntilPrompt_scan 10 4 (''ab'' @ [CR, LF] @ ''cd ef '') (defaultClient ''gh '' [])
     = Inr (13, 4, ''ab'' @ [CR, LF] @ ''cd ef gh '', ''cd ef gh '', defaultClient [] [])"
    by code_simp
  have p: "bannerFound (defaultClient [] []) ''cd ef gh '' = (False, defaultClient [] [])"
    by code_simp
  have s3: "ReadUntilPrompt_iter bannerFound 3
     (0, 0, [], defaultClient [] [''ab'' @ [CR, LF] @ ''cd ef gh ''])
     = Some (13, 4, ''ab'' @ [CR, LF] @ ''cd ef gh '', defaultClient [] [])"
    by code_simp
  have n3: "ReadUntilPrompt_scan 13 4 (''ab'' @ [CR, LF] @ ''cd ef gh '') (defaultClient [] [])
     = Inl (ReadError, ''ab'' @ [CR, LF] @ ''cd ef gh '', defaultClient [] [])"
    by code_simp
  note a = scan_cursor_invariant [OF s]
  note b = scan_cursor_invariant [OF s3]
  from a have a1: "(0 :: int) \<le> 4 \<and> (4 :: int) \<le> 10 \<and>
      (10 :: int) \<le> int (length (''ab'' @ [CR, LF] @ ''cd ef ''))" by blast
  from a n have a2: "(4 :: int) \<le> 13 \<and> (13 :: int) \<le> int (length (''ab'' @ [CR, LF] @ ''cd ef gh '')) \<and>
      ''cd ef gh '' = take (nat (13 - 4)) (drop (nat 4) (''ab'' @ [CR, LF] @ ''cd ef gh ''))"
    by blast
  from a n have "ReadUntilPrompt_loop bannerFound 10 4 (''ab'' @ [CR, LF] @ ''cd ef '')
        (defaultClient ''gh '' []) =
      (case bannerFound (defaultClient [] [])
              (take (nat (13 - 4)) (drop (nat 4) (''ab'' @ [CR, LF] @ ''cd ef gh ''))) of
         (stop, tc2) \<Rightarrow>
           if stop then Some (''ab'' @ [CR, LF] @ ''cd ef gh '', None, tc2)
           else ReadUntilPrompt_loop bannerFound 13 4 (''ab'' @ [CR, LF] @ ''cd ef gh '') tc2)"
    by blast
  moreover have "take (nat (13 - 4)) (drop (nat 4) (''ab'' @ [CR, LF] @ ''cd ef gh ''))
      = ''cd ef gh ''" by simp
  ultimately have a3: "ReadUntilPrompt_loop bannerFound 10 4 (''ab'' @ [CR, LF] @ ''cd ef '')
        (defaultClient ''gh '' [])
     = ReadUntilPrompt_loop bannerFound 13 4 (''ab'' @ [CR, LF] @ ''cd ef gh '') (defaultClient [] [])"
    using p by simp
  from b n3 have b1: "ReadUntilPrompt_loop bannerFound 13 4 (''ab'' @ [CR, LF] @ ''cd ef gh '')
        (defaultClient [] [])
     = Some (''ab'' @ [CR, LF] @ ''cd ef gh '', Some ReadError, defaultClient [] [])"
    by blast
  from b have b2: "ReadUntilPrompt bannerFound (defaultClient [] [''ab'' @ [CR, LF] @ ''cd ef gh ''])
     = ReadUntilPrompt_loop bannerFound 13 4 (''ab'' @ [CR, LF] @ ''cd ef gh '') (defaultClient [] [])"
    by blast
  from b1 b2 have b3: "ReadUntilPrompt bannerFound (defaultClient [] [''ab'' @ [CR, LF] @ ''cd ef gh ''])
     = Some (''ab'' @ [CR, LF] @ ''cd ef gh '', Some ReadError, defaultClient [] [])"
    by simp
  have ne: "ReadError \<noteq> SliceBounds" by simp
  from s n p s3 n3 a1 a2 a3 b3 ne show ?thesis by blast
qed

lemma loop_banner_frame:
  assumes "ReadUntilPrompt_loop process d l out tc = Some res"
    and "process = bannerFound"
  shows "case res of (out', err, tc') \<Rightarrow> tc' = tc\<lparr>reader := reader tc'\<rparr>"
  using assms(2)
proof (induction process d l out tc res rule: ReadUntilPrompt_loop.raw_induct)
  case (1 loop process d l out tc res)
  show ?case
  proof (cases "ReadUntilPrompt_scan d l out tc")
    case (Inl x)
    obtain e out1 tc1 where x: "x = (e, out1, tc1)" by (cases x) auto
    with Inl "1.hyps" have res: "res = (out1, Some e, tc1)" by simp
    obtain n e' o1 r1 where ru: "ReadUntil out (Delimiter tc) (reader tc) = (n, e', o1, r1)"
      by (cases "ReadUntil out (Delimiter tc) (reader tc)") auto
    with Inl x have "tc1 = tc\<lparr>reader := r1\<rparr>"
      by (cases e') (auto simp: ReadUntilPrompt_scan_def Let_def split: if_splits)
    with res show ?thesis by simp
  next
    case (Inr x)
    obtain d1 l1 out1 chunk tc1 where x: "x = (d1, l1, out1, chunk, tc1)" by (cases x) auto
    note s = Inr [unfolded x]
    from scan_Inr [OF s] obtain r1 where tc1: "tc1 = tc\<lparr>reader := r1\<rparr>" by blast
    have p: "process tc1 chunk = (Find (BannerRe tc1) chunk \<noteq> [], tc1)"
      using "1.prems" by (simp add: bannerFound_def)
    show ?thesis
    proof (cases "Find (BannerRe tc1) chunk \<noteq> []")
      case True
      with s p "1.hyps" have "res = (out1, None, tc1)" by simp
      with tc1 show ?thesis by simp
    next
      case False
      with s p "1.hyps" have run: "loop process d1 l1 out1 tc1 = Some res" by simp
      from "1.IH" [OF run "1.prems"] tc1 show ?thesis by (cases res) auto
    qed
  qed
qed fact

lemma ReadUntilPrompt_banner_error:
  assumes "ReadUntilPrompt bannerFound tc = Some (out, Some e, tc')"
  shows "e = ReadError \<and> out = payload (reader tc) \<and> tc' = tc\<lparr>reader := reader tc'\<rparr>"
proof -
  have k: "\<forall>t c. reader (snd (bannerFound t c)) = reader t" by (simp add: bannerFound_def)
  have i: "(0 :: int) = int (length ([] :: bytes))" "(0 :: int) = lineStart []"
    by (simp_all add: lineStart_def findNewLinePos_def findNewLinePos_loop.simps)
  from loop_payload [OF assms [unfolded ReadUntilPrompt_def] k i]
    loop_banner_frame [OF assms [unfolded ReadUntilPrompt_def] refl]
  show ?thesis by auto
qed

lemma ReadUntilBanner_error:
  assumes "ReadUntilBanner tc = Some (out, Some e, tc')"
  shows "e = ReadError \<and> out = Trim (ReplaceAll (BannerRe tc) (payload (reader tc))) '' ''"
proof -
  from assms obtain raw where r: "ReadUntilPrompt bannerFound tc = Some (raw, Some e, tc')"
    and o: "out = Trim (ReplaceAll (BannerRe tc') raw) '' ''"
    by (auto simp: ReadUntilBanner_def Let_def split: option.splits)
  from ReadUntilPrompt_banner_error [OF r] have
    e: "e = ReadError" and p: "raw = payload (reader tc)"
    and t: "tc' = tc\<lparr>reader := reader tc'\<rparr>"
    by simp_all
  from arg_cong [OF t, of BannerRe] have "BannerRe tc' = BannerRe tc" by simp
  with o p e show ?thesis by simp
qed

lemma Execute_ReadUntilBanner:
  "\<exists>tc2. Execute tc name args = ReadUntilBanner tc2 \<and>
         reader tc2 = (reader tc)\<lparr>buf := []\<rparr> \<and> BannerRe tc2 = BannerRe tc \<and>
         Delimiter tc2 = Delimiter tc"
proof -
  define tc1 where "tc1 = tc\<lparr>reader := (reader tc)\<lparr>buf := []\<rparr>\<rparr>"
  define tc2 where "tc2 = snd (snd (Write tc1 (name @ '' '' @ Join args '' '' @ [CR, LF])))"
  have "Execute tc name args = ReadUntilBanner tc2"
    by (simp add: Execute_def rdDiscard_buffered tc1_def tc2_def split: prod.splits)
  moreover from Write_frame [of tc1 "name @ '' '' @ Join args '' '' @ [CR, LF]"]
  have "reader tc2 = (reader tc)\<lparr>buf := []\<rparr> \<and> BannerRe tc2 = BannerRe tc \<and>
        Delimiter tc2 = Delimiter tc"
    by (simp add: tc1_def tc2_def)
  ultimately show ?thesis by blast
qed

text \<open>
  C4, as stated, fails: when the stream ends before a delimiter, \<^verbatim>\<open>ReadUntilPrompt\<close>,
  \<^verbatim>\<open>ReadUntilBanner\<close> and \<^verbatim>\<open>Execute\<close> return the read error together with the output
  accumulated so far.
\<close>

theorem read_error_counterexample:
  "map_option (\<lambda>(out, err, tc'). (out, err))
     (ReadUntilPrompt bannerFound (defaultClient [] [''abc''])) = Some (''abc'', Some ReadError) \<and>
   map_option (\<lambda>(out, err, tc'). (out, err))
     (ReadUntilBanner (defaultClient [] [''abc''])) = Some (''abc'', Some ReadError) \<and>
   map_option (\<lambda>(out, err, tc'). (out, err))
     (Execute (defaultClient [] [''abc'']) ''ls'' [''-l'']) = Some (''abc'', Some ReadError) \<and>
   ''abc'' \<noteq> []"
  by code_simp

text \<open>
  C4, amended: a read operation that fails with a read error returns, together with the
  error, the output accumulated during the call: \<^verbatim>\<open>ReadUntilPrompt\<close> (with a predicate that
  leaves the reader alone) all the payload bytes it has read, \<^verbatim>\<open>ReadUntilBanner\<close> and
  \<^verbatim>\<open>Execute\<close> these bytes with the matches of the banner pattern removed and the spaces
  at both ends trimmed.
\<close>

theorem read_error_keeps_output:
  "(ReadUntilPrompt process tc = Some (out, Some e, tc') \<and>
    (\<forall>t c. reader (snd (process t c)) = reader t)
      \<longrightarrow> e = ReadError \<and> out = payload (reader tc)) \<and>
   (ReadUntilBanner tc = Some (out, Some e, tc')
      \<longrightarrow> e = ReadError \<and>
          out = Trim (ReplaceAll (BannerRe tc) (payload (reader tc))) '' '') \<and>
   (Execute tc name args = Some (out, Some e, tc')
      \<longrightarrow> e = ReadError \<and>
          out = Trim (ReplaceAll (BannerRe tc) (payload ((reader tc)\<lparr>buf := []\<rparr>))) '' '')"
proof -
  have i: "(0 :: int) = int (length ([] :: bytes))" "(0 :: int) = lineStart []"
    by (simp_all add: lineStart_def findNewLinePos_def findNewLinePos_loop.simps)
  have 1: "e = ReadError \<and> out = payload (reader tc)"
    if a: "ReadUntilPrompt process tc = Some (out, Some e, tc') \<and>
           (\<forall>t c. reader (snd (process t c)) = reader t)"
  proof -
    from a have r: "ReadUntilPrompt_loop process 0 0 [] tc = Some (out, Some e, tc')"
      and k: "\<forall>t c. reader (snd (process t c)) = reader t"
      by (simp_all add: ReadUntilPrompt_def)
    from loop_payload [OF r k i] show ?thesis by auto
  qed
  have 2: "e = ReadError \<and> out = Trim (ReplaceAll (BannerRe tc) (payload (reader tc))) '' ''"
    if "ReadUntilBanner tc = Some (out, Some e, tc')"
    using ReadUntilBanner_error [OF that] .
  have 3: "e = ReadError \<and>
           out = Trim (ReplaceAll (BannerRe tc) (payload ((reader tc)\<lparr>buf := []\<rparr>))) '' ''"
    if a: "Execute tc name args = Some (out, Some e, tc')"
  proof -
    from Execute_ReadUntilBanner [of tc name args] a obtain tc2 where
      "ReadUntilBanner tc2 = Some (out, Some e, tc')"
      "reader tc2 = (reader tc)\<lparr>buf := []\<rparr>" "BannerRe tc2 = BannerRe tc" by auto
    with ReadUntilBanner_error [of tc2 out e tc'] show ?thesis by simp
  qed
  from 1 2 3 show ?thesis by blast
qed

theorem read_error_keeps_output_witness:
  "(\<forall>t c. reader (snd (bannerFound t c)) = reader t) \<and>
   ReadUntilPrompt bannerFound (defaultClient [] ['' ab user@h:~$''])
     = Some ('' ab user@h:~$'', Some ReadError, defaultClient [] []) \<and>
   '' ab user@h:~$'' = payload (reader (defaultClient [] ['' ab user@h:~$''])) \<and>
   ReadUntilBanner (defaultClient [] ['' ab user@h:~$''])
     = Some (''ab'', Some ReadError, defaultClient [] []) \<and>
   Execute (defaultClient ''old'' ['' ab user@h:~$'']) ''ls'' []
     = Some (''ab'', Some ReadError,
             (defaultClient [] [])\<lparr>sent := ''ls '' @ [CR, LF]\<rparr>) \<and>
   ''ab'' = Trim (ReplaceAll (BannerRe (defaultClient ''old'' ['' ab user@h:~$'']))
                 (payload ((reader (defaultClient ''old'' ['' ab user@h:~$'']))\<lparr>buf := []\<rparr>))) '' ''"
proof -
  have k: "\<forall>t c. reader (snd (bannerFound t c)) = reader t" by (simp add: bannerFound_def)
  have p: "ReadUntilPrompt bannerFound (defaultClient [] ['' ab user@h:~$''])
     = Some ('' ab user@h:~$'', Some ReadError, defaultClient [] [])"
    by code_simp
  have b: "ReadUntilBanner (defaultClient [] ['' ab user@h:~$''])
     = Some (''ab'', Some ReadError, defaultClient [] [])"
    by code_simp
  have e: "Execute (defaultClient ''old'' ['' ab user@h:~$'']) ''ls'' []
     = Some (''ab'', Some ReadError, (defaultClient [] [])\<lparr>sent := ''ls '' @ [CR, LF]\<rparr>)"
    by code_simp
  from read_error_keeps_output [of bannerFound "defaultClient [] ['' ab user@h:~$'']"
      "'' ab user@h:~$''" ReadError "defaultClient [] []"] k p
  have 1: "'' ab user@h:~$'' = payload (reader (defaultClient [] ['' ab user@h:~$'']))"
    by simp
  from read_error_keeps_output [of _ "defaultClient ''old'' ['' ab user@h:~$'']" "''ab''" ReadError
      "(defaultClient [] [])\<lparr>sent := ''ls '' @ [CR, LF]\<rparr>" "''ls''" "[]"] e
  have 3: "''ab'' = Trim (ReplaceAll (BannerRe (defaultClient ''old'' ['' ab user@h:~$'']))
                 (payload ((reader (defaultClient ''old'' ['' ab user@h:~$'']))\<lparr>buf := []\<rparr>))) '' ''"
    by simp
  from k p b e 1 3 show ?thesis by blast
qed

lemma ReadUntilPrompt_banner_ok:
  assumes "ReadUntilPrompt bannerFound tc = Some (out, None, tc')" "Delimiter tc \<noteq> NUL"
  shows "payload (reader tc) = out @ payload (reader tc') \<and> out \<noteq> [] \<and>
         last out = Delimiter tc \<and> Find (BannerRe tc) (currentLine out) \<noteq> [] \<and>
         (\<forall>k. 0 < k \<and> k < length out \<and> out ! (k - 1) = Delimiter tc \<longrightarrow>
              Find (BannerRe tc) (currentLine (take k out)) = []) \<and>
         tc' = tc\<lparr>reader := reader tc'\<rparr>"
proof -
  have k: "\<forall>t c. reader (snd (bannerFound t c)) = reader t" by (simp add: bannerFound_def)
  have i: "(0 :: int) = int (length ([] :: bytes))" "(0 :: int) = lineStart []"
    by (simp_all add: lineStart_def findNewLinePos_def findNewLinePos_loop.simps)
  note r = assms(1) [unfolded ReadUntilPrompt_def]
  from loop_payload [OF r k i] have "payload (reader tc) = out @ payload (reader tc')"
    by simp
  moreover from loop_banner [OF r refl i assms(2)] have
    "out \<noteq> [] \<and> last out = Delimiter tc \<and> Find (BannerRe tc) (currentLine out) \<noteq> [] \<and>
     (\<forall>k. 0 < k \<and> k < length out \<and> out ! (k - 1) = Delimiter tc \<longrightarrow>
          Find (BannerRe tc) (currentLine (take k out)) = []) \<and>
     tc' = tc\<lparr>reader := reader tc'\<rparr>"
    by simp
  ultimately show ?thesis by simp
qed

lemma ReadUntilBanner_total:
  assumes "Delimiter tc \<noteq> NUL"
  shows "\<exists>res. ReadUntilBanner tc = Some res"
proof -
  have k: "\<forall>t c. reader (snd (bannerFound t c)) = reader t \<and>
                 Delimiter (snd (bannerFound t c)) = Delimiter t"
    by (simp add: bannerFound_def)
  from loop_terminates [OF k assms, of 0 0 "[]"] obtain res where
    "ReadUntilPrompt bannerFound tc = Some res" by (auto simp: ReadUntilPrompt_def)
  then show ?thesis by (cases res) (simp add: ReadUntilBanner_def Let_def)
qed

text \<open>
  C2, as stated, fails on its example: on receiving \<^verbatim>\<open>\n\rfile1\nfile2\n\ruser@host:~$\<close> and
  a space, \<^verbatim>\<open>Execute("ls", "-l")\<close> returns \<^verbatim>\<open>\n\rfile1\nfile2\n\r\<close>: only the space byte is
  trimmed, the line feeds and carriage returns around the output stay.
\<close>

theorem Execute_output_counterexample:
  "map_option (\<lambda>(out, err, tc'). (out, err))
     (Execute (defaultClient [] [[LF, CR] @ ''file1'' @ [LF] @ ''file2'' @ [LF, CR]
                                  @ ''user@host:~$ ''])
        ''ls'' [''-l''])
     = Some ([LF, CR] @ ''file1'' @ [LF] @ ''file2'' @ [LF, CR], None) \<and>
   [LF, CR] @ ''file1'' @ [LF] @ ''file2'' @ [LF, CR] \<noteq> ''file1'' @ [LF] @ ''file2''"
  by code_simp

text \<open>
  C2, amended: with a delimiter other than the zero byte, \<^verbatim>\<open>Execute\<close> returns. Let \<open>P\<close> be the
  payload bytes that the connection delivers after the bytes buffered at the call have
  been discarded. \<^verbatim>\<open>Execute\<close> returns without error exactly when some prefix of \<open>P\<close> that ends
  with a delimiter holds a match of the banner pattern in its current line. Then its
  result is made from \<open>raw\<close>, the shortest such prefix (the bytes up to the end of the first
  delimiter-bounded fragment at which the current line holds a match; at no delimiter
  before it does): every match of the banner pattern is removed from \<open>raw\<close> and the space
  bytes (32, no other byte) at both ends are trimmed. Otherwise it returns the read error
  and the result made in the same way from all of \<open>P\<close>. On the example of C2 the result is
  \<^verbatim>\<open>\n\rfile1\nfile2\n\r\<close>.
\<close>

theorem Execute_output:
  "(Delimiter tc \<noteq> NUL \<longrightarrow>
      (\<exists>stdout err tc'. Execute tc name args = Some (stdout, err, tc') \<and>
         (err = None \<longleftrightarrow>
            (\<exists>k. 0 < k \<and> k \<le> length (payload ((reader tc)\<lparr>buf := []\<rparr>)) \<and>
                 payload ((reader tc)\<lparr>buf := []\<rparr>) ! (k - 1) = Delimiter tc \<and>
                 Find (BannerRe tc)
                   (currentLine (take k (payload ((reader tc)\<lparr>buf := []\<rparr>)))) \<noteq> [])) \<and>
         (err = None \<longrightarrow>
            (\<exists>raw. payload ((reader tc)\<lparr>buf := []\<rparr>) = raw @ payload (reader tc') \<and>
                raw \<noteq> [] \<and> last raw = Delimiter tc \<and>
                Find (BannerRe tc) (currentLine raw) \<noteq> [] \<and>
                (\<forall>k. 0 < k \<and> k < length raw \<and> raw ! (k - 1) = Delimiter tc \<longrightarrow>
                     Find (BannerRe tc) (currentLine (take k raw)) = []) \<and>
                stdout = Trim (ReplaceAll (BannerRe tc) raw) '' '')) \<and>
         (err \<noteq> None \<longrightarrow>
            err = Some ReadError \<and>
            stdout = Trim (ReplaceAll (BannerRe tc) (payload ((reader tc)\<lparr>buf := []\<rparr>))) '' ''))) \<and>
   map_option (\<lambda>(out, err, tc'). (out, err))
     (Execute (defaultClient [] [[LF, CR] @ ''file1'' @ [LF] @ ''file2'' @ [LF, CR]
                                  @ ''user@host:~$ ''])
        ''ls'' [''-l''])
     = Some ([LF, CR] @ ''file1'' @ [LF] @ ''file2'' @ [LF, CR], None)"
proof (intro conjI impI)
  assume d: "Delimiter tc \<noteq> NUL"
  define P where "P = payload ((reader tc)\<lparr>buf := []\<rparr>)"
  from Execute_ReadUntilBanner [of tc name args] obtain tc2 where
    e: "Execute tc name args = ReadUntilBanner tc2"
    and t2: "reader tc2 = (reader tc)\<lparr>buf := []\<rparr>" "BannerRe tc2 = BannerRe tc"
      "Delimiter tc2 = Delimiter tc" by blast
  from d t2 have d2: "Delimiter tc2 \<noteq> NUL" by simp
  from ReadUntilBanner_total [of tc2] d t2 obtain stdout err tc' where
    rb: "ReadUntilBanner tc2 = Some (stdout, err, tc')" by (metis prod_cases3)
  have i: "(0 :: int) = int (length ([] :: bytes))" "(0 :: int) = lineStart []"
    by (simp_all add: lineStart_def findNewLinePos_def findNewLinePos_loop.simps)
  have okp: "\<exists>raw. P = raw @ payload (reader tc') \<and>
                raw \<noteq> [] \<and> last raw = Delimiter tc \<and>
                Find (BannerRe tc) (currentLine raw) \<noteq> [] \<and>
                (\<forall>k. 0 < k \<and> k < length raw \<and> raw ! (k - 1) = Delimiter tc \<longrightarrow>
                     Find (BannerRe tc) (currentLine (take k raw)) = []) \<and>
                stdout = Trim (ReplaceAll (BannerRe tc) raw) '' ''"
    if n: "err = None"
  proof -
    from rb n obtain raw where
      r: "ReadUntilPrompt bannerFound tc2 = Some (raw, None, tc')"
      and o: "stdout = Trim (ReplaceAll (BannerRe tc') raw) '' ''"
      by (auto simp: ReadUntilBanner_def Let_def split: option.splits)
    note ok = ReadUntilPrompt_banner_ok [OF r d2]
    then have t: "tc' = tc2\<lparr>reader := reader tc'\<rparr>" by simp
    from arg_cong [OF t, of BannerRe] t2 have "BannerRe tc' = BannerRe tc" by simp
    with ok o t2 show ?thesis unfolding P_def by (intro exI [of _ raw]) simp
  qed
  have found: "\<exists>k. 0 < k \<and> k \<le> length P \<and> P ! (k - 1) = Delimiter tc \<and>
                 Find (BannerRe tc) (currentLine (take k P)) \<noteq> []"
    if n: "err = None"
  proof -
    from okp [OF n] obtain raw where
      raw: "P = raw @ payload (reader tc')" "raw \<noteq> []" "last raw = Delimiter tc"
        "Find (BannerRe tc) (currentLine raw) \<noteq> []" by blast
    from raw(2) have l: "0 < length raw" "length raw - 1 < length raw" by simp_all
    from raw(1) l(2) have "P ! (length raw - 1) = raw ! (length raw - 1)"
      by (simp add: nth_append)
    also from raw(2) have "\<dots> = last raw" by (simp add: last_conv_nth)
    finally have "P ! (length raw - 1) = Delimiter tc" using raw(3) by simp
    moreover from raw(1) have "length raw \<le> length P" "take (length raw) P = raw" by simp_all
    ultimately show ?thesis using l(1) raw(4) by (intro exI [of _ "length raw"]) simp
  qed
  have errp: "err = Some ReadError \<and> stdout = Trim (ReplaceAll (BannerRe tc) P) '' '' \<and>
       (\<forall>k. 0 < k \<and> k \<le> length P \<and> P ! (k - 1) = Delimiter tc \<longrightarrow>
            Find (BannerRe tc) (currentLine (take k P)) = [])"
    if n: "err \<noteq> None"
  proof -
    from n obtain x where x: "err = Some x" by auto
    from ReadUntilBanner_error [OF rb [unfolded x]] t2 x
    have 1: "err = Some ReadError" "stdout = Trim (ReplaceAll (BannerRe tc) P) '' ''"
      by (simp_all add: P_def)
    from rb x obtain raw where
      r: "ReadUntilPrompt_loop bannerFound 0 0 [] tc2 = Some (raw, Some x, tc')"
      by (auto simp: ReadUntilBanner_def ReadUntilPrompt_def Let_def split: option.splits)
    from loop_banner_err [OF r refl i d2] t2
    have "\<forall>k. 0 < k \<and> k \<le> length P \<and> P ! (k - 1) = Delimiter tc \<longrightarrow>
            Find (BannerRe tc) (currentLine (take k P)) = []"
      by (simp add: P_def)
    with 1 show ?thesis by simp
  qed
  have iff: "err = None \<longleftrightarrow>
       (\<exists>k. 0 < k \<and> k \<le> length P \<and> P ! (k - 1) = Delimiter tc \<and>
            Find (BannerRe tc) (currentLine (take k P)) \<noteq> [])"
  proof
    assume "err = None"
    then show "\<exists>k. 0 < k \<and> k \<le> length P \<and> P ! (k - 1) = Delimiter tc \<and>
            Find (BannerRe tc) (currentLine (take k P)) \<noteq> []"
      by (rule found)
  next
    assume "\<exists>k. 0 < k \<and> k \<le> length P \<and> P ! (k - 1) = Delimiter tc \<and>
            Find (BannerRe tc) (currentLine (take k P)) \<noteq> []"
    then obtain k where k: "0 < k \<and> k \<le> length P \<and> P ! (k - 1) = Delimiter tc"
      and f: "Find (BannerRe tc) (currentLine (take k P)) \<noteq> []"
      by blast
    show "err = None"
    proof (rule ccontr)
      assume "err \<noteq> None"
      from errp [OF this] have "\<forall>k. 0 < k \<and> k \<le> length P \<and> P ! (k - 1) = Delimiter tc \<longrightarrow>
            Find (BannerRe tc) (currentLine (take k P)) = []"
        by (elim conjE)
      from this [rule_format, OF k] f show False by (rule notE [rotated])
    qed
  qed
  have ok2: "err = None \<longrightarrow>
            (\<exists>raw. P = raw @ payload (reader tc') \<and>
                raw \<noteq> [] \<and> last raw = Delimiter tc \<and>
                Find (BannerRe tc) (currentLine raw) \<noteq> [] \<and>
                (\<forall>k. 0 < k \<and> k < length raw \<and> raw ! (k - 1) = Delimiter tc \<longrightarrow>
                     Find (BannerRe tc) (currentLine (take k raw)) = []) \<and>
                stdout = Trim (ReplaceAll (BannerRe tc) raw) '' '')"
    by (rule impI) (rule okp)
  have er2: "err \<noteq> None \<longrightarrow>
            err = Some ReadError \<and> stdout = Trim (ReplaceAll (BannerRe tc) P) '' ''"
  proof (rule impI)
    assume "err \<noteq> None"
    from errp [OF this]
    show "err = Some ReadError \<and> stdout = Trim (ReplaceAll (BannerRe tc) P) '' ''"
      by (elim conjE) (intro conjI; assumption)
  qed
  from e rb have ex: "Execute tc name args = Some (stdout, err, tc')" by (simp only:)
  show "\<exists>stdout err tc'. Execute tc name args = Some (stdout, err, tc') \<and>
         (err = None \<longleftrightarrow>
            (\<exists>k. 0 < k \<and> k \<le> length (payload ((reader tc)\<lparr>buf := []\<rparr>)) \<and>
                 payload ((reader tc)\<lparr>buf := []\<rparr>) ! (k - 1) = Delimiter tc \<and>
                 Find (BannerRe tc)
                   (currentLine (take k (payload ((reader tc)\<lparr>buf := []\<rparr>)))) \<noteq> [])) \<and>
         (err = None \<longrightarrow>
            (\<exists>raw. payload ((reader tc)\<lparr>buf := []\<rparr>) = raw @ payload (reader tc') \<and>
                raw \<noteq> [] \<and> last raw = Delimiter tc \<and>
                Find (BannerRe tc) (currentLine raw) \<noteq> [] \<and>
                (\<forall>k. 0 < k \<and> k < length raw \<and> raw ! (k - 1) = Delimiter tc \<longrightarrow>
                     Find (BannerRe tc) (currentLine (take k raw)) = []) \<and>
                stdout = Trim (ReplaceAll (BannerRe tc) raw) '' '')) \<and>
         (err \<noteq> None \<longrightarrow>
            err = Some ReadError \<and>
            stdout = Trim (ReplaceAll (BannerRe tc) (payload ((reader tc)\<lparr>buf := []\<rparr>))) '' '')"
    unfolding P_def [symmetric]
    by (rule exI [of _ stdout], rule exI [of _ err], rule exI [of _ tc'])
       (intro conjI ex iff ok2 er2)
next
  show "map_option (\<lambda>(out, err, tc'). (out, err))
     (Execute (defaultClient [] [[LF, CR] @ ''file1'' @ [LF] @ ''file2'' @ [LF, CR]
                                  @ ''user@host:~$ ''])
        ''ls'' [''-l''])
     = Some ([LF, CR] @ ''file1'' @ [LF] @ ''file2'' @ [LF, CR], None)"
    by code_simp
qed

theorem Execute_output_witness:
  "Delimiter (defaultClient ''old '' [''a b user@host:/tmp# '', ''late'']) \<noteq> NUL \<and>
   payload ((reader (defaultClient ''old '' [''a b user@host:/tmp# '', ''late'']))\<lparr>buf := []\<rparr>)
     = ''a b user@host:/tmp# late'' \<and>
   ''a b user@host:/tmp# late'' ! (20 - 1)
     = Delimiter (defaultClient ''old '' [''a b user@host:/tmp# '', ''late'']) \<and>
   Find (BannerRe (defaultClient ''old '' [''a b user@host:/tmp# '', ''late'']))
     (currentLine (take 20 ''a b user@host:/tmp# late'')) \<noteq> [] \<and>
   map_option (\<lambda>(out, err, tc'). (out, err, flat (reader tc')))
     (Execute (defaultClient ''old '' [''a b user@host:/tmp# '', ''late'']) ''pwd'' [])
     = Some (''a b'', None, ''late'') \<and>
   (\<exists>stdout tc'.
      Execute (defaultClient ''old '' [''a b user@host:/tmp# '', ''late'']) ''pwd'' []
        = Some (stdout, None, tc') \<and>
      (\<exists>raw. ''a b user@host:/tmp# late'' = raw @ payload (reader tc') \<and>
             raw \<noteq> [] \<and>
             stdout = Trim (ReplaceAll
               (BannerRe (defaultClient ''old '' [''a b user@host:/tmp# '', ''late''])) raw) '' ''))"
proof -
  define c where "c = defaultClient ''old '' [''a b user@host:/tmp# '', ''late'']"
  have d: "Delimiter c \<noteq> NUL" by (simp add: c_def defaultClient_def)
  have fl: "flat ((reader c)\<lparr>buf := []\<rparr>) = ''a b user@host:/tmp# late''"
    by (simp add: c_def defaultClient_def flat_def)
  have p: "payload ((reader c)\<lparr>buf := []\<rparr>) = ''a b user@host:/tmp# late''"
    using payload_stream_append [of "''a b user@host:/tmp# late''" "[]"]
    by (simp add: payload_flat fl payload_stream_Nil)
  have q: "''a b user@host:/tmp# late'' ! (20 - 1) = Delimiter c"
    unfolding c_def by code_simp
  have f: "Find (BannerRe c) (currentLine (take 20 ''a b user@host:/tmp# late'')) \<noteq> []"
    unfolding c_def by code_simp
  have e: "map_option (\<lambda>(out, err, tc'). (out, err, flat (reader tc')))
     (Execute c ''pwd'' []) = Some (''a b'', None, ''late'')"
    unfolding c_def by code_simp
  have k: "\<exists>k. 0 < k \<and> k \<le> length (payload ((reader c)\<lparr>buf := []\<rparr>)) \<and>
                 payload ((reader c)\<lparr>buf := []\<rparr>) ! (k - 1) = Delimiter c \<and>
                 Find (BannerRe c) (currentLine (take k (payload ((reader c)\<lparr>buf := []\<rparr>)))) \<noteq> []"
  proof (intro exI [of _ 20] conjI)
    show "0 < (20 :: nat)" by simp
    show "20 \<le> length (payload ((reader c)\<lparr>buf := []\<rparr>))" by (simp only: p) simp
    show "payload ((reader c)\<lparr>buf := []\<rparr>) ! (20 - 1) = Delimiter c" by (simp only: p q)
    show "Find (BannerRe c) (currentLine (take 20 (payload ((reader c)\<lparr>buf := []\<rparr>)))) \<noteq> []"
      unfolding p by (rule f)
  qed
  from Execute_output [THEN conjunct1, THEN mp, OF d, of "''pwd''" "[]"]
  obtain stdout err tc' where
    x: "Execute c ''pwd'' [] = Some (stdout, err, tc')"
    and y: "err = None \<longleftrightarrow>
            (\<exists>k. 0 < k \<and> k \<le> length (payload ((reader c)\<lparr>buf := []\<rparr>)) \<and>
                 payload ((reader c)\<lparr>buf := []\<rparr>) ! (k - 1) = Delimiter c \<and>
                 Find (BannerRe c) (currentLine (take k (payload ((reader c)\<lparr>buf := []\<rparr>)))) \<noteq> [])"
    and z: "err = None \<longrightarrow>
            (\<exists>raw. payload ((reader c)\<lparr>buf := []\<rparr>) = raw @ payload (reader tc') \<and>
                raw \<noteq> [] \<and> last raw = Delimiter c \<and>
                Find (BannerRe c) (currentLine raw) \<noteq> [] \<and>
                (\<forall>k. 0 < k \<and> k < length raw \<and> raw ! (k - 1) = Delimiter c \<longrightarrow>
                     Find (BannerRe c) (currentLine (take k raw)) = []) \<and>
                stdout = Trim (ReplaceAll (BannerRe c) raw) '' '')"
    by (elim exE conjE) (rule that; assumption)
  from y k have n: "err = None" by (simp only:)
  from z [rule_format, OF n] obtain raw where
    r: "payload ((reader c)\<lparr>buf := []\<rparr>) = raw @ payload (reader tc')" "raw \<noteq> []"
    "stdout = Trim (ReplaceAll (BannerRe c) raw) '' ''"
    by (elim exE conjE) (rule that; assumption)
  from r(1) p have r1: "''a b user@host:/tmp# late'' = raw @ payload (reader tc')"
    by (simp only:)
  from x n have x': "Execute c ''pwd'' [] = Some (stdout, None, tc')" by (simp only:)
  have v: "\<exists>raw. ''a b user@host:/tmp# late'' = raw @ payload (reader tc') \<and>
             raw \<noteq> [] \<and> stdout = Trim (ReplaceAll (BannerRe c) raw) '' ''"
    by (rule exI [of _ raw]) (intro conjI r1 r(2) r(3))
  have w: "\<exists>stdout tc'.
      Execute c ''pwd'' [] = Some (stdout, None, tc') \<and>
      (\<exists>raw. ''a b user@host:/tmp# late'' = raw @ payload (reader tc') \<and>
             raw \<noteq> [] \<and>
             stdout = Trim (ReplaceAll (BannerRe c) raw) '' '')"
    by (rule exI [of _ stdout], rule exI [of _ tc'], rule conjI [OF x' v])
  show ?thesis
    by (intro conjI d [unfolded c_def] p [unfolded c_def] q [unfolded c_def]
          f [unfolded c_def] e [unfolded c_def] w [unfolded c_def])
qed

end
